theory Spec2Isabelle
  imports Complex_Main "HOL-Library.Word"
begin

section \<open>Python values used by \<^verbatim>\<open>tools/convert_sfx.py\<close>\<close>

text \<open>
  The sound-effect converter works on Python lists of unbounded integers (\<^typ>\<open>int list\<close>)
  and on a few Python floats. Every exception the code can raise is a value of
  \<open>py_error\<close>, and a function that can raise returns \<open>py_error + 'a\<close>.
\<close>

datatype py_error =
    ZeroDivisionError
  | OverflowError
  | IndexError
  | ValueError
  | StructError
  | WaveError string

subsection \<open>Python floats: IEEE 754 binary64, round to nearest, ties to even\<close>

text \<open>
  A finite Python float is the rational number it denotes. \<open>bit_length n\<close> is Python's
  \<^verbatim>\<open>int.bit_length\<close>; \<open>ilog2 x\<close> is the binary exponent of a positive rational;
  \<open>fl x\<close> rounds a rational to the nearest binary64 value (53 significant bits, subnormals
  below \<open>2 powi (-1022)\<close>, ties to the even significand) without a bound on the exponent;
  \<open>to_double\<close> adds the bound. The three places where the code makes a float (an
  \<^verbatim>\<open>int / int\<close> true division, an \<^verbatim>\<open>int * float\<close> product and a
  \<^verbatim>\<open>float + float\<close> sum) pass the result straight to \<^verbatim>\<open>int()\<close>
  or raise themselves when the result is too large, so an infinite result is modelled as the
  \<open>OverflowError\<close> that follows it.
\<close>

fun bit_length :: "nat \<Rightarrow> nat" where
  "bit_length n = (if n = 0 then 0 else Suc (bit_length (n div 2)))"

declare bit_length.simps [simp del]

definition ilog2 :: "rat \<Rightarrow> int" where
  "ilog2 x =
     (let e = int (bit_length (nat (fst (quotient_of x))))
            - int (bit_length (nat (snd (quotient_of x))))
      in if 2 powi e \<le> x then e else e - 1)"

definition round_half_even :: "rat \<Rightarrow> int" where
  "round_half_even y =
     (let f = \<lfloor>y\<rfloor>; d = y - of_int f
      in if d < 1 / 2 then f
         else if 1 / 2 < d then f + 1
         else if even f then f else f + 1)"

definition fl :: "rat \<Rightarrow> rat" where
  "fl x =
     (if x = 0 then 0
      else let e = max (ilog2 \<bar>x\<bar> - 52) (- 1074)
           in of_int (round_half_even (x / 2 powi e)) * 2 powi e)"

definition to_double :: "rat \<Rightarrow> py_error + rat" where
  "to_double x = (let y = fl x in if 2 ^ 1024 \<le> \<bar>y\<bar> then Inl OverflowError else Inr y)"

text \<open>\<^verbatim>\<open>a / b\<close> on two ints: correctly rounded, raising on a zero divisor.\<close>

definition int_truediv :: "int \<Rightarrow> int \<Rightarrow> py_error + rat" where
  "int_truediv a b = (if b = 0 then Inl ZeroDivisionError else to_double (of_int a / of_int b))"

text \<open>\<^verbatim>\<open>s * scale\<close> with an int \<open>s\<close> and a float \<open>scale\<close>: the int is converted first.\<close>

definition int_mul_float :: "int \<Rightarrow> rat \<Rightarrow> py_error + rat" where
  "int_mul_float s x =
     (case to_double (of_int s) of
        Inl e \<Rightarrow> Inl e
      | Inr f \<Rightarrow> to_double (f * x))"

definition float_add :: "rat \<Rightarrow> rat \<Rightarrow> py_error + rat" where
  "float_add x y = to_double (x + y)"

text \<open>\<^verbatim>\<open>int(x)\<close> on a finite float truncates toward zero.\<close>

definition int_of_float :: "rat \<Rightarrow> int" where
  "int_of_float x = (if 0 \<le> x then \<lfloor>x\<rfloor> else \<lceil>x\<rceil>)"

subsection \<open>List indexing and slicing\<close>

text \<open>\<^verbatim>\<open>xs[i]\<close>: an index from \<open>- len\<close> to \<open>- 1\<close> reads from the end, anything outside raises.\<close>

definition py_get :: "'a list \<Rightarrow> int \<Rightarrow> py_error + 'a" where
  "py_get xs i =
     (if 0 \<le> i \<and> i < int (length xs) then Inr (xs ! nat i)
      else if i < 0 \<and> - int (length xs) \<le> i then Inr (xs ! nat (int (length xs) + i))
      else Inl IndexError)"

text \<open>\<^verbatim>\<open>xs[:n]\<close>: a negative bound counts from the end, and bounds are clipped.\<close>

definition py_slice_to :: "'a list \<Rightarrow> int \<Rightarrow> 'a list" where
  "py_slice_to xs n = (if n < 0 then take (nat (int (length xs) + n)) xs else take (nat n) xs)"

section \<open>The pipeline stages\<close>

subsection \<open>\<^verbatim>\<open>read_wav_mono\<close>: the downmix loop\<close>

text \<open>
  \<open>frame_sum samples i nch c s\<close> is the inner loop
  \<^verbatim>\<open>for c in range(nch): s += samples[i + c]\<close> from channel \<open>c\<close> on, and
  \<open>mono_loop\<close> the outer loop \<^verbatim>\<open>for i in range(0, len(samples), nch)\<close>, which
  appends \<^verbatim>\<open>s // nch\<close> to the list \<^verbatim>\<open>mono\<close> (here \<open>acc\<close>; floor division, as \<open>div\<close> on \<^typ>\<open>int\<close>).
  \<^verbatim>\<open>range\<close> raises ValueError on a zero step.
\<close>

function frame_sum :: "int list \<Rightarrow> nat \<Rightarrow> nat \<Rightarrow> nat \<Rightarrow> int \<Rightarrow> py_error + int" where
  "frame_sum samples i nch c s =
     (if c < nch then
        (case py_get samples (int (i + c)) of
           Inl e \<Rightarrow> Inl e
         | Inr v \<Rightarrow> frame_sum samples i nch (Suc c) (s + v))
      else Inr s)"
  by pat_completeness auto
termination
  by (relation "measure (\<lambda>(samples, i, nch, c, s). nch - c)") auto

declare frame_sum.simps [simp del]

function mono_loop :: "int list \<Rightarrow> nat \<Rightarrow> nat \<Rightarrow> int list \<Rightarrow> py_error + int list" where
  "mono_loop samples nch i acc =
     (if nch = 0 then Inl ValueError
      else if i < length samples then
        (case frame_sum samples i nch 0 0 of
           Inl e \<Rightarrow> Inl e
         | Inr s \<Rightarrow> mono_loop samples nch (i + nch) (acc @ [s div int nch]))
      else Inr acc)"
  by pat_completeness auto
termination
  by (relation "measure (\<lambda>(samples, nch, i, acc). length samples - i)") auto

declare mono_loop.simps [simp del]

definition to_mono :: "int list \<Rightarrow> nat \<Rightarrow> py_error + int list" where
  "to_mono samples nch = mono_loop samples nch 0 []"

text \<open>\<open>frame_total samples nch k\<close> abbreviates the sum of the channels of frame \<open>k\<close>.\<close>

abbreviation frame_total :: "int list \<Rightarrow> nat \<Rightarrow> nat \<Rightarrow> int" where
  "frame_total samples nch k \<equiv> (\<Sum>c<nch. samples ! (k * nch + c))"

subsection \<open>\<^verbatim>\<open>downsample\<close>\<close>

text \<open>
  The \<^verbatim>\<open>while int(i) < len(samples)\<close> loop walks a float cursor and need not end
  (a ratio of \<open>0.0\<close>, or a cursor too large for the ratio to move it), so the loop is a
  partial function: \<open>None\<close> is a run that never returns.
\<close>

partial_function (option) downsample_loop ::
  "int list \<Rightarrow> rat \<Rightarrow> rat \<Rightarrow> int list \<Rightarrow> (py_error + int list) option" where
  "downsample_loop samples ratio i out =
     (if int_of_float i < int (length samples) then
        (case py_get samples (int_of_float i) of
           Inl e \<Rightarrow> Some (Inl e)
         | Inr v \<Rightarrow>
            (case float_add i ratio of
               Inl e \<Rightarrow> Some (Inl e)
             | Inr i' \<Rightarrow> downsample_loop samples ratio i' (out @ [v])))
      else Some (Inr out))"

definition downsample :: "int list \<Rightarrow> int \<Rightarrow> int \<Rightarrow> (py_error + int list) option" where
  "downsample samples src_rate dst_rate =
     (case int_truediv src_rate dst_rate of
        Inl e \<Rightarrow> Some (Inl e)
      | Inr ratio \<Rightarrow> downsample_loop samples ratio 0 [])"

subsection \<open>\<^verbatim>\<open>trim_silence\<close>\<close>

text \<open>
  \<open>trim_scan\<close> is the \<^verbatim>\<open>for i, s in enumerate(samples)\<close> loop with its
  \<^verbatim>\<open>break\<close>: it returns the new value of \<^verbatim>\<open>start\<close>.
\<close>

fun trim_scan :: "int list \<Rightarrow> int \<Rightarrow> int \<Rightarrow> int \<Rightarrow> int" where
  "trim_scan [] threshold i start = start"
| "trim_scan (s # rest) threshold i start =
     (if \<bar>s\<bar> > threshold then i else trim_scan rest threshold (i + 1) start)"

definition trim_silence :: "int list \<Rightarrow> int \<Rightarrow> int list" where
  "trim_silence samples threshold =
     (let start = trim_scan samples threshold 0 0;
          start = max 0 (start - 16)
      in drop (nat start) samples)"

subsection \<open>\<^verbatim>\<open>normalize\<close>\<close>

text \<open>
  \<open>peak_of\<close> is \<^verbatim>\<open>max(abs(s) for s in samples) if samples else 1\<close>;
  \<open>scale_sample\<close> is one element of the list comprehension,
  \<^verbatim>\<open>max(-32768, min(32767, int(s * scale)))\<close>.
\<close>

definition peak_of :: "int list \<Rightarrow> int" where
  "peak_of samples = (if samples = [] then 1 else Max (set (map abs samples)))"

definition scale_sample :: "rat \<Rightarrow> int \<Rightarrow> py_error + int" where
  "scale_sample scale s =
     (case int_mul_float s scale of
        Inl e \<Rightarrow> Inl e
      | Inr p \<Rightarrow> Inr (max (- 32768) (min 32767 (int_of_float p))))"

fun scale_all :: "rat \<Rightarrow> int list \<Rightarrow> py_error + int list" where
  "scale_all scale [] = Inr []"
| "scale_all scale (s # rest) =
     (case scale_sample scale s of
        Inl e \<Rightarrow> Inl e
      | Inr v \<Rightarrow> (case scale_all scale rest of Inl e \<Rightarrow> Inl e | Inr vs \<Rightarrow> Inr (v # vs)))"

definition normalize :: "int list \<Rightarrow> int \<Rightarrow> py_error + int list" where
  "normalize samples target_peak =
     (let peak = peak_of samples
      in if peak = 0 then Inr samples
         else (case int_truediv target_peak peak of
                 Inl e \<Rightarrow> Inl e
               | Inr scale \<Rightarrow> scale_all scale samples))"

subsection \<open>\<^verbatim>\<open>align_brr\<close>\<close>

definition align_brr :: "int list \<Rightarrow> int list" where
  "align_brr samples =
     (let remainder = length samples mod 16
      in if remainder \<noteq> 0 then samples @ replicate (16 - remainder) 0 else samples)"

section \<open>The batch run: \<^verbatim>\<open>main\<close>\<close>

subsection \<open>Configuration\<close>

definition SRC_DIR :: string where
  "SRC_DIR = ''C:/Users/Ryan Rentfro/Downloads/RawSounds''"

definition OUT_DIR :: string where
  "OUT_DIR = ''assets/sfx''"

definition TARGET_RATE :: int where
  "TARGET_RATE = 16000"

definition SILENCE_THRESHOLD :: int where
  "SILENCE_THRESHOLD = 800"

text \<open>
  The table of (source name, output name, maximum duration). A duration is a float literal:
  the binary64 value nearest to the decimal written in the source.
\<close>

definition MAPPINGS :: "(string \<times> string \<times> rat) list" where
  "MAPPINGS =
     [(''Zap.wav'', ''player_shoot'', fl (12 / 100)),
      (''Zap02.wav'', ''enemy_shoot'', fl (12 / 100)),
      (''explode.wav'', ''explosion'', fl (25 / 100)),
      (''Hit01.wav'', ''hit'', fl (12 / 100)),
      (''Bleep.wav'', ''menu_select'', fl (10 / 100)),
      (''Bleep.wav'', ''menu_move'', fl (6 / 100)),
      (''Bleep.wav'', ''dialog_blip'', fl (4 / 100)),
      (''Test0001.wav'', ''level_up'', fl (40 / 100)),
      (''ShipHit.wav'', ''heal'', fl (25 / 100))]"

subsection \<open>The world outside the program\<close>

text \<open>
  What \<^verbatim>\<open>wave.open\<close> and the getters give for a file that opens: the header fields and
  the bytes \<^verbatim>\<open>readframes(nframes)\<close> returns (fewer than the header promises when the
  file is cut short).
\<close>

record wav_file =
  getnchannels :: nat
  getframerate :: int
  getnframes :: nat
  readframes :: "8 word list"

text \<open>
  The file system, the \<^verbatim>\<open>wave\<close> module's reader and the external encoder are
  parameters of the run: \<open>path_exists\<close> is \<^verbatim>\<open>os.path.exists\<close>, \<open>wave_open\<close> what
  opening a path for reading gives (an exception for a file that is not a PCM WAV),
  \<open>snesbrr\<close> the return code and standard error of the encoder run on the samples just
  written, \<open>getsize\<close> the size of the file it produced. Creating the output directory and
  opening the output file for writing are taken to succeed.
\<close>

record env =
  path_exists :: "string \<Rightarrow> bool"
  wave_open :: "string \<Rightarrow> py_error + wav_file"
  snesbrr :: "string \<Rightarrow> string \<Rightarrow> int list \<Rightarrow> int \<times> string"
  getsize :: "string \<Rightarrow> nat"

text \<open>The lines the run prints, in order, and the two counters of \<^verbatim>\<open>main\<close>.\<close>

datatype event =
    Converting string string
  | SourceNotFound string
  | Source nat int
  | Downsampled nat
  | AfterTrim nat
  | Truncated rat nat
  | BrrAligned nat
  | SnesbrrFailed string
  | BrrOutput nat
  | FailedToConvert
  | Results nat nat nat

record run_state =
  total_brr_size :: nat
  success :: nat
  printed :: "event list"

definition print :: "event \<Rightarrow> run_state \<Rightarrow> run_state" where
  "print ev st = st\<lparr>printed := printed st @ [ev]\<rparr>"

text \<open>
  A run either ends normally or is ended by an exception that nothing catches; the state at
  that point (what was printed so far) is kept with the exception.
\<close>

datatype outcome = Finished run_state | Raised py_error run_state

subsection \<open>\<^verbatim>\<open>read_wav_mono\<close> and \<^verbatim>\<open>write_wav\<close>\<close>

text \<open>
  \<^verbatim>\<open>struct.unpack('<' + 'h' * n, raw)\<close>: little-endian signed 16-bit integers; the
  byte string must be exactly \<open>2 * n\<close> bytes long.
\<close>

definition le16 :: "8 word \<Rightarrow> 8 word \<Rightarrow> int" where
  "le16 lo hi =
     (let u = uint lo + 256 * uint hi in if 32768 \<le> u then u - 65536 else u)"

fun unpack_pairs :: "8 word list \<Rightarrow> int list" where
  "unpack_pairs (lo # hi # rest) = le16 lo hi # unpack_pairs rest"
| "unpack_pairs _ = []"

definition struct_unpack_h :: "nat \<Rightarrow> 8 word list \<Rightarrow> py_error + int list" where
  "struct_unpack_h n raw = (if length raw = 2 * n then Inr (unpack_pairs raw) else Inl StructError)"

definition read_wav_mono :: "env \<Rightarrow> string \<Rightarrow> py_error + int list \<times> int" where
  "read_wav_mono world filepath =
     (case wave_open world filepath of
        Inl e \<Rightarrow> Inl e
      | Inr w \<Rightarrow>
         (case struct_unpack_h (getnframes w * getnchannels w) (readframes w) of
            Inl e \<Rightarrow> Inl e
          | Inr samples \<Rightarrow>
             (case to_mono samples (getnchannels w) of
                Inl e \<Rightarrow> Inl e
              | Inr out \<Rightarrow> Inr (out, getframerate w))))"

text \<open>
  \<^verbatim>\<open>struct.pack('<' + 'h' * len(samples), *samples)\<close> in \<^verbatim>\<open>write_wav\<close> raises on
  a sample outside the 16-bit range.
\<close>

definition in_int16 :: "int \<Rightarrow> bool" where
  "in_int16 s = (- 32768 \<le> s \<and> s \<le> 32767)"

definition write_wav :: "int list \<Rightarrow> py_error + unit" where
  "write_wav samples = (if list_all in_int16 samples then Inr () else Inl StructError)"

subsection \<open>One entry of the table, and the loop over the table\<close>

definition os_path_join :: "string \<Rightarrow> string \<Rightarrow> string" where
  "os_path_join dir name = dir @ ''/'' @ name"

text \<open>
  The truncation step of \<^verbatim>\<open>main\<close>:
  \<^verbatim>\<open>max_samples = int(max_dur * TARGET_RATE); truncated = trimmed[:max_samples]\<close>.
\<close>

definition truncate_duration :: "int list \<Rightarrow> rat \<Rightarrow> py_error + int list" where
  "truncate_duration trimmed max_dur =
     (case int_mul_float TARGET_RATE max_dur of
        Inl e \<Rightarrow> Inl e
      | Inr p \<Rightarrow> Inr (py_slice_to trimmed (int_of_float p)))"

text \<open>
  \<open>convert_to_brr\<close> and the lines after it in the loop body: the encoder's verdict decides
  between counting the entry and reporting its failure.
\<close>

definition convert_to_brr :: "env \<Rightarrow> string \<Rightarrow> string \<Rightarrow> int list \<Rightarrow> run_state \<Rightarrow> bool \<times> run_state" where
  "convert_to_brr world wav_path brr_path written st =
     (case snesbrr world wav_path brr_path written of
        (returncode, stderr) \<Rightarrow>
          if returncode \<noteq> 0 then (False, print (SnesbrrFailed stderr) st) else (True, st))"

definition encode_step :: "env \<Rightarrow> string \<Rightarrow> string \<Rightarrow> int list \<Rightarrow> run_state \<Rightarrow> run_state" where
  "encode_step world wav_out brr_out aligned st =
     (case convert_to_brr world wav_out brr_out aligned st of
        (True, st1) \<Rightarrow>
          (let brr_size = getsize world brr_out
           in print (BrrOutput brr_size)
                (st1\<lparr>total_brr_size := total_brr_size st1 + brr_size,
                     success := success st1 + 1\<rparr>))
      | (False, st1) \<Rightarrow> print FailedToConvert st1)"

text \<open>
  The stages after the resampler, which all return: trim, truncate, normalize (with the
  default \<open>target_peak = 28000\<close>), align, write, encode.
\<close>

definition finish_entry ::
  "env \<Rightarrow> string \<Rightarrow> string \<Rightarrow> rat \<Rightarrow> int list \<Rightarrow> run_state \<Rightarrow> outcome" where
  "finish_entry world wav_out brr_out max_dur resampled st =
     (let trimmed = trim_silence resampled SILENCE_THRESHOLD;
          st1 = print (AfterTrim (length trimmed)) st
      in case truncate_duration trimmed max_dur of
           Inl e \<Rightarrow> Raised e st1
         | Inr truncated \<Rightarrow>
            (let st2 = print (Truncated max_dur (length truncated)) st1
             in case normalize truncated 28000 of
                  Inl e \<Rightarrow> Raised e st2
                | Inr normalized \<Rightarrow>
                   (let aligned = align_brr normalized;
                        st3 = print (BrrAligned (length aligned)) st2
                    in case write_wav aligned of
                         Inl e \<Rightarrow> Raised e st3
                       | Inr _ \<Rightarrow> Finished (encode_step world wav_out brr_out aligned st3))))"

text \<open>
  The body of \<^verbatim>\<open>for src_name, out_name, max_dur in MAPPINGS\<close>. \<open>None\<close> is a resampler
  that never returns.
\<close>

definition convert_entry :: "env \<Rightarrow> string \<times> string \<times> rat \<Rightarrow> run_state \<Rightarrow> outcome option" where
  "convert_entry world entry st =
     (case entry of (src_name, out_name, max_dur) \<Rightarrow>
        (let src_path = os_path_join SRC_DIR src_name;
             wav_out = os_path_join OUT_DIR (out_name @ ''.wav'');
             brr_out = os_path_join OUT_DIR (out_name @ ''.brr'');
             st1 = print (Converting src_name out_name) st
         in if \<not> path_exists world src_path then Some (Finished (print (SourceNotFound src_path) st1))
            else case read_wav_mono world src_path of
                   Inl e \<Rightarrow> Some (Raised e st1)
                 | Inr (mono_samples, src_rate) \<Rightarrow>
                    (let st2 = print (Source (length mono_samples) src_rate) st1
                     in case downsample mono_samples src_rate TARGET_RATE of
                          None \<Rightarrow> None
                        | Some (Inl e) \<Rightarrow> Some (Raised e st2)
                        | Some (Inr resampled) \<Rightarrow>
                            Some (finish_entry world wav_out brr_out max_dur resampled
                                    (print (Downsampled (length resampled)) st2)))))"

fun main_loop :: "env \<Rightarrow> (string \<times> string \<times> rat) list \<Rightarrow> run_state \<Rightarrow> outcome option" where
  "main_loop world [] st = Some (Finished st)"
| "main_loop world (entry # rest) st =
     (case convert_entry world entry st of
        None \<Rightarrow> None
      | Some (Raised e st1) \<Rightarrow> Some (Raised e st1)
      | Some (Finished st1) \<Rightarrow> main_loop world rest st1)"

definition main :: "env \<Rightarrow> outcome option" where
  "main world =
     (case main_loop world MAPPINGS \<lparr>total_brr_size = 0, success = 0, printed = []\<rparr> of
        None \<Rightarrow> None
      | Some (Raised e st) \<Rightarrow> Some (Raised e st)
      | Some (Finished st) \<Rightarrow>
          Some (Finished (print (Results (success st) (length MAPPINGS) (total_brr_size st)) st)))"

section \<open>Properties of the stages\<close>

subsection \<open>Rounding to binary64\<close>

lemma bit_length_bounds:
  "0 < n \<Longrightarrow> 2 ^ (bit_length n - 1) \<le> n \<and> n < 2 ^ bit_length n"
proof (induction n rule: bit_length.induct)
  case (1 n)
  show ?case
  proof (cases "n div 2 = 0")
    case True
    with "1.prems" have "n = 1" by (simp add: div_eq_0_iff) 
    then show ?thesis by (simp add: bit_length.simps [of "Suc 0"] bit_length.simps [of 0])
  next
    case False
    then have pos: "0 < n div 2" by simp
    have n0: "n \<noteq> 0" using "1.prems" by simp
    from "1.IH" [OF n0 pos]
    have lo: "2 ^ (bit_length (n div 2) - 1) \<le> n div 2"
      and hi: "n div 2 < 2 ^ bit_length (n div 2)" by simp_all
    have bl: "bit_length n = Suc (bit_length (n div 2))"
      using n0 by (subst bit_length.simps) simp
    have blpos: "0 < bit_length (n div 2)"
      using pos by (subst bit_length.simps) simp
    then have "(2::nat) ^ bit_length (n div 2) = 2 * 2 ^ (bit_length (n div 2) - 1)"
      by (cases "bit_length (n div 2)") simp_all
    with lo have "2 ^ bit_length (n div 2) \<le> 2 * (n div 2)" by simp
    also have "\<dots> \<le> n" by simp
    finally have a: "2 ^ (bit_length n - 1) \<le> n" by (simp add: bl)
    have "n < 2 * (n div 2 + 1)" by presburger
    also have "\<dots> \<le> 2 * 2 ^ bit_length (n div 2)" using hi by simp
    finally have b: "n < 2 ^ bit_length n" by (simp add: bl)
    from a b show ?thesis ..
  qed
qed

lemma bit_length_pos: "0 < n \<Longrightarrow> 0 < bit_length n"
  by (subst bit_length.simps) simp

lemma powi_diff_nat: "(2::rat) powi (int m - int n) = 2 ^ m / 2 ^ n"
  by (simp add: power_int_diff)

lemma powi_mono: "m \<le> n \<Longrightarrow> (2::rat) powi m \<le> 2 powi n"
  by (simp add: power_int_increasing)

lemma powi_pos: "0 < (2::rat) powi m"
  by simp

lemma powi_succ: "(2::rat) powi (m + 1) = 2 * 2 powi m"
  by (simp add: power_int_add)

lemma ilog2_bounds:
  assumes "0 < x"
  shows "2 powi (ilog2 x) \<le> x \<and> x < 2 powi (ilog2 x + 1)"
proof -
  obtain a b where q: "quotient_of x = (a, b)" by (cases "quotient_of x")
  then have b: "0 < b" using quotient_of_denom_pos by blast
  have x: "x = of_int a / of_int b" using q by (rule quotient_of_div)
  with assms b have a: "0 < a" by (simp add: zero_less_divide_iff)
  define la where "la = bit_length (nat a)"
  define lb where "lb = bit_length (nat b)"
  have "2 ^ (la - 1) \<le> nat a \<and> nat a < 2 ^ la"
    unfolding la_def using a by (intro bit_length_bounds) simp
  then have alo: "(2::int) ^ (la - 1) \<le> a" and ahi: "a < (2::int) ^ la"
    using a by (simp_all add: nat_le_iff nat_less_iff flip: of_nat_power)
  have "2 ^ (lb - 1) \<le> nat b \<and> nat b < 2 ^ lb"
    unfolding lb_def using b by (intro bit_length_bounds) simp
  then have blo: "(2::int) ^ (lb - 1) \<le> b" and bhi: "b < (2::int) ^ lb"
    using b by (simp_all add: nat_le_iff nat_less_iff flip: of_nat_power)
  have lapos: "0 < la" unfolding la_def using a by (intro bit_length_pos) simp
  have lbpos: "0 < lb" unfolding lb_def using b by (intro bit_length_pos) simp
  have la2: "(2::int) ^ la = 2 * 2 ^ (la - 1)" using lapos by (cases la) simp_all
  have lb2: "(2::int) ^ lb = 2 * 2 ^ (lb - 1)" using lbpos by (cases lb) simp_all
  define e where "e = int la - int lb"
  have pe: "(2::rat) powi e = 2 ^ la / 2 ^ lb" unfolding e_def by (rule powi_diff_nat)
  \<comment> \<open>upper bound: x < 2 powi (e + 1)\<close>
  have "a * 2 ^ lb < 2 ^ la * 2 ^ lb" using ahi by simp
  also have "\<dots> \<le> 2 ^ la * (2 * b)" using blo lb2 by simp
  finally have "a * 2 ^ lb < 2 * 2 ^ la * b" by (simp add: mult_ac)
  then have "(of_int (a * 2 ^ lb) :: rat) < of_int (2 * 2 ^ la * b)"
    by (simp only: of_int_less_iff)
  then have "(of_int a :: rat) * 2 ^ lb < 2 * 2 ^ la * of_int b" by simp
  then have "(of_int a :: rat) / of_int b < (2 * 2 ^ la) / 2 ^ lb"
    using b by (simp add: field_simps)
  then have up: "x < 2 powi (e + 1)"
    by (simp only: x powi_succ pe times_divide_eq_right)
  \<comment> \<open>lower bound: 2 powi (e - 1) \<le> x\<close>
  have "2 ^ la * b \<le> 2 ^ la * 2 ^ lb" using bhi by simp
  also have "\<dots> \<le> (2 * a) * 2 ^ lb" using alo la2 by simp
  finally have "2 ^ la * b \<le> 2 * a * 2 ^ lb" .
  then have "(of_int (2 ^ la * b) :: rat) \<le> of_int (2 * a * 2 ^ lb)"
    by (simp only: of_int_le_iff)
  then have "(2::rat) ^ la * of_int b \<le> 2 * of_int a * 2 ^ lb" by simp
  then have "(2::rat) ^ la / 2 ^ lb \<le> 2 * (of_int a / of_int b)"
    using b by (simp add: field_simps)
  then have "2 powi e \<le> 2 * x"
    by (simp only: x pe)
  then have low: "2 powi (e - 1) \<le> x"
    using powi_succ [of "e - 1"] by simp
  have il: "ilog2 x = (if 2 powi e \<le> x then e else e - 1)"
    by (simp add: ilog2_def Let_def q la_def lb_def e_def)
  show ?thesis
  proof (cases "2 powi e \<le> x")
    case True
    with il up show ?thesis by simp
  next
    case False
    with il low show ?thesis by simp
  qed
qed

lemma ilog2_ge: "0 < x \<Longrightarrow> 2 powi k \<le> x \<Longrightarrow> k \<le> ilog2 x"
proof (rule ccontr)
  assume x: "0 < x" and k: "2 powi k \<le> x" and "\<not> k \<le> ilog2 x"
  then have "ilog2 x + 1 \<le> k" by simp
  then have "(2::rat) powi (ilog2 x + 1) \<le> 2 powi k" by (rule powi_mono)
  with ilog2_bounds [OF x] k show False by simp
qed

lemma ilog2_less: "0 < x \<Longrightarrow> x < 2 powi k \<Longrightarrow> ilog2 x < k"
proof (rule ccontr)
  assume x: "0 < x" and k: "x < 2 powi k" and "\<not> ilog2 x < k"
  then have "k \<le> ilog2 x" by simp
  then have "(2::rat) powi k \<le> 2 powi (ilog2 x)" by (rule powi_mono)
  with ilog2_bounds [OF x] k show False by simp
qed

lemma round_half_even_error: "\<bar>of_int (round_half_even y) - y\<bar> \<le> 1 / 2"
proof -
  have "of_int \<lfloor>y\<rfloor> \<le> y" "y < of_int \<lfloor>y\<rfloor> + 1" by linarith+
  then show ?thesis
    unfolding round_half_even_def Let_def by (auto simp: abs_le_iff) 
qed

lemma round_half_even_of_int [simp]: "round_half_even (of_int n) = n"
  by (simp add: round_half_even_def)

lemma fl_error_ulp:
  assumes "x \<noteq> 0"
  shows "\<bar>fl x - x\<bar> \<le> 2 powi (max (ilog2 \<bar>x\<bar> - 52) (- 1074)) / 2"
proof -
  define e where "e = max (ilog2 \<bar>x\<bar> - 52) (- 1074)"
  define y where "y = x / 2 powi e"
  have p: "0 < (2::rat) powi e" by simp
  have x: "x = y * 2 powi e" by (simp add: y_def)
  have "fl x = of_int (round_half_even y) * 2 powi e"
    using assms by (simp add: fl_def Let_def e_def y_def)
  then have "fl x - x = (of_int (round_half_even y) - y) * 2 powi e"
    by (simp add: y_def algebra_simps)
  then have "\<bar>fl x - x\<bar> = \<bar>of_int (round_half_even y) - y\<bar> * 2 powi e"
    using p by (simp add: abs_mult)
  also have "\<dots> \<le> (1 / 2) * 2 powi e"
    using round_half_even_error [of y] p by (intro mult_right_mono) simp_all
  finally show ?thesis by (simp add: e_def)
qed

lemma fl_error_rel:
  assumes "2 powi (- 1022) \<le> \<bar>x\<bar>"
  shows "\<bar>fl x - x\<bar> \<le> \<bar>x\<bar> / 2 ^ 53"
proof -
  have pos: "0 < \<bar>x\<bar>" using assms powi_pos [of "- 1022"] by linarith
  then have nz: "x \<noteq> 0" by simp
  have "- 1022 \<le> ilog2 \<bar>x\<bar>" using pos assms by (rule ilog2_ge)
  then have e: "max (ilog2 \<bar>x\<bar> - 52) (- 1074) = ilog2 \<bar>x\<bar> - 52" by simp
  have "(2::rat) powi (ilog2 \<bar>x\<bar> - 52) = 2 powi (ilog2 \<bar>x\<bar>) / 2 ^ 52"
    by (simp add: power_int_diff)
  also have "\<dots> \<le> \<bar>x\<bar> / 2 ^ 52"
    using ilog2_bounds [OF pos] by (simp add: divide_right_mono)
  finally have "(2::rat) powi (ilog2 \<bar>x\<bar> - 52) / 2 \<le> \<bar>x\<bar> / 2 ^ 52 / 2" by simp
  with fl_error_ulp [OF nz] e show ?thesis by simp
qed

lemma rat_abs_le_of_int: "\<bar>n\<bar> \<le> m \<Longrightarrow> \<bar>(of_int n :: rat)\<bar> \<le> of_int m"
proof -
  assume "\<bar>n\<bar> \<le> m"
  then have "(of_int \<bar>n\<bar> :: rat) \<le> of_int m" by (simp only: of_int_le_iff)
  then show ?thesis by simp
qed

lemma fl_of_int:
  assumes "\<bar>n\<bar> \<le> 2 ^ 53"
  shows "fl (of_int n) = of_int n"
proof (cases "n = 0")
  case True
  then show ?thesis by (simp add: fl_def)
next
  case False
  define x :: rat where "x = of_int n"
  define k where "k = ilog2 \<bar>x\<bar>"
  have pos: "0 < \<bar>x\<bar>" using False by (simp add: x_def)
  have "1 \<le> \<bar>n\<bar>" using False by simp
  then have "(of_int 1 :: rat) \<le> of_int \<bar>n\<bar>" by (simp only: of_int_le_iff)
  then have one: "1 \<le> \<bar>x\<bar>" by (simp add: x_def)
  have le: "\<bar>x\<bar> \<le> 2 ^ 53"
    using rat_abs_le_of_int [OF assms] by (simp add: x_def)
  have k0: "0 \<le> k" unfolding k_def using pos one by (intro ilog2_ge) simp_all
  have "(2::rat) ^ 53 < 2 ^ 54" by (rule power_strict_increasing) simp_all
  with le have "\<bar>x\<bar> < 2 powi 54" by simp
  then have "k < 54" unfolding k_def using pos by (intro ilog2_less)
  then have k53: "k \<le> 53" by simp
  define e where "e = max (k - 52) (- 1074)"
  have e: "e = k - 52" using k0 by (simp add: e_def)
  have flx: "fl x = of_int (round_half_even (x / 2 powi e)) * 2 powi e"
    using pos by (simp add: fl_def Let_def e_def k_def)
  have pnz: "(2::rat) powi e \<noteq> 0" by simp
  show ?thesis
  proof (cases "e \<le> 0")
    case True
    then have "(2::rat) powi e = inverse (2 ^ nat (- e))"
      by (cases "e = 0") (simp_all add: power_int_def power_one_over inverse_eq_divide)
    then have q: "x / 2 powi e = of_int (n * 2 ^ nat (- e))"
      by (simp add: x_def divide_inverse)
    have "fl x = (x / 2 powi e) * 2 powi e"
      by (simp only: flx q round_half_even_of_int)
    also have "\<dots> = x" using pnz by simp
    finally show ?thesis by (simp add: x_def)
  next
    case False
    with e k53 have e1: "e = 1" and k: "k = 53" by simp_all
    have "2 powi k \<le> \<bar>x\<bar>" unfolding k_def using ilog2_bounds [OF pos] by simp
    with le k have ax: "\<bar>x\<bar> = 2 ^ 53" by simp
    then have "(of_int \<bar>n\<bar> :: rat) = of_int (2 ^ 53)" by (simp add: x_def)
    then have "\<bar>n\<bar> = 2 ^ 53" by (simp only: of_int_eq_iff)
    moreover have "even ((2::int) ^ 53)" by simp
    ultimately have "even \<bar>n\<bar>" by (simp only:)
    then have "even n" by simp
    then have n2: "n = 2 * (n div 2)" by simp
    have "x = of_int (2 * (n div 2))" unfolding x_def using n2 by simp
    then have x2: "x = 2 * of_int (n div 2)" by simp
    then have "x / 2 powi e = of_int (n div 2)" by (simp add: e1)
    then have "fl x = of_int (n div 2) * 2 powi e"
      by (simp only: flx round_half_even_of_int)
    then have "fl x = of_int (n div 2) * 2"
      by (simp add: e1)
    also have "\<dots> = x" using x2 by simp
    finally show ?thesis by (simp add: x_def)
  qed
qed

lemma to_double_of_int:
  assumes "\<bar>n\<bar> \<le> 2 ^ 53"
  shows "to_double (of_int n) = Inr (of_int n)"
proof -
  have "\<bar>(of_int n :: rat)\<bar> \<le> 2 ^ 53"
    using rat_abs_le_of_int [OF assms] by simp
  also have "(2::rat) ^ 53 < 2 ^ 1024" by (rule power_strict_increasing) simp_all
  finally show ?thesis using fl_of_int [OF assms] by (simp add: to_double_def)
qed

subsection \<open>Downmix\<close>

lemma py_get_in_range: "i < length xs \<Longrightarrow> py_get xs (int i) = Inr (xs ! i)"
  by (simp add: py_get_def)

lemma frame_sum_eq:
  "c \<le> nch \<Longrightarrow> i + nch \<le> length samples \<Longrightarrow>
   frame_sum samples i nch c s = Inr (s + (\<Sum>j = c..<nch. samples ! (i + j)))"
proof (induction samples i nch c s rule: frame_sum.induct)
  case (1 samples i nch c s)
  show ?case
  proof (cases "c < nch")
    case True
    then have get: "py_get samples (int (i + c)) = Inr (samples ! (i + c))"
      using "1.prems" by (intro py_get_in_range) simp
    have "frame_sum samples i nch (Suc c) (s + samples ! (i + c))
          = Inr (s + samples ! (i + c) + (\<Sum>j = Suc c..<nch. samples ! (i + j)))"
      using "1.IH" [OF True get] True "1.prems" by simp
    moreover have "(\<Sum>j = c..<nch. samples ! (i + j))
          = samples ! (i + c) + (\<Sum>j = Suc c..<nch. samples ! (i + j))"
      using True by (simp add: sum.atLeast_Suc_lessThan)
    ultimately show ?thesis
      using True get by (subst frame_sum.simps) simp
  next
    case False
    with "1.prems" show ?thesis by (subst frame_sum.simps) simp
  qed
qed

lemma mono_loop_eq:
  "0 < nch \<Longrightarrow> length samples = n * nch \<Longrightarrow> i = k * nch \<Longrightarrow> k \<le> n \<Longrightarrow>
   mono_loop samples nch i acc
     = Inr (acc @ map (\<lambda>k. frame_total samples nch k div int nch) [k..<n])"
proof (induction samples nch i acc arbitrary: k rule: mono_loop.induct)
  case (1 samples nch i acc)
  show ?case
  proof (cases "k < n")
    case True
    then have "Suc k * nch \<le> n * nch" by (intro mult_le_mono1) simp
    then have fits: "i + nch \<le> length samples" using "1.prems" by simp
    then have lt: "i < length samples" using "1.prems"(1) by linarith
    have sum: "frame_sum samples i nch 0 0 = Inr (frame_total samples nch k)"
      using frame_sum_eq [of 0 nch i samples 0] fits "1.prems"
      by (simp add: atLeast0LessThan)
    have nz: "nch \<noteq> 0" using "1.prems" by simp
    have "mono_loop samples nch (i + nch) (acc @ [frame_total samples nch k div int nch])
          = Inr ((acc @ [frame_total samples nch k div int nch])
                 @ map (\<lambda>k. frame_total samples nch k div int nch) [Suc k..<n])"
      using "1.IH" [OF nz lt sum, of "Suc k"] "1.prems" True by simp
    then show ?thesis
      using nz lt sum True by (subst mono_loop.simps) (simp add: upt_conv_Cons)
  next
    case False
    with "1.prems" have "k = n" by simp
    with "1.prems" show ?thesis by (subst mono_loop.simps) simp
  qed
qed

lemma to_mono_eq:
  assumes "0 < nch" and "length samples = nframes * nch"
  shows "to_mono samples nch
           = Inr (map (\<lambda>k. frame_total samples nch k div int nch) [0..<nframes])"
  using mono_loop_eq [OF assms, of 0 0 "[]"] by (simp add: to_mono_def)

lemma div_is_floor: "a div int n = \<lfloor>(of_int a :: rat) / of_nat n\<rfloor>"
  by (metis floor_divide_of_int_eq of_int_of_nat_eq)

text \<open>
  Claim C2. For a decoded buffer of \<open>nframes\<close> frames of \<open>nch\<close> channels, the downmix returns
  one sample per frame, and sample \<open>k\<close> is the floor of the sum of the frame's channels divided
  by the channel count (rounding toward negative infinity). For a stereo buffer that is
  \<open>\<lfloor>(a + b) / 2\<rfloor>\<close> for the frame \<open>(a, b)\<close>, and the frame \<open>(100, -101)\<close> gives \<open>-1\<close>.
\<close>

theorem to_mono_floor_division:
  "(0 < nch \<and> length samples = nframes * nch \<longrightarrow>
      (\<exists>out. to_mono samples nch = Inr out \<and> length out = nframes
         \<and> (\<forall>k<nframes. out ! k
               = \<lfloor>(of_int (\<Sum>c<nch. samples ! (k * nch + c)) :: rat) / of_nat nch\<rfloor>)))
   \<and> (length samples = nframes * 2 \<longrightarrow>
      (\<exists>out. to_mono samples 2 = Inr out \<and> length out = nframes
         \<and> (\<forall>k<nframes. out ! k
               = \<lfloor>(of_int (samples ! (k * 2) + samples ! (k * 2 + 1)) :: rat) / 2\<rfloor>)))
   \<and> to_mono [100, - 101] 2 = Inr [- 1]"
proof (intro conjI impI)
  assume "0 < nch \<and> length samples = nframes * nch"
  then show "\<exists>out. to_mono samples nch = Inr out \<and> length out = nframes
         \<and> (\<forall>k<nframes. out ! k
               = \<lfloor>(of_int (\<Sum>c<nch. samples ! (k * nch + c)) :: rat) / of_nat nch\<rfloor>)"
    by (simp add: to_mono_eq div_is_floor)
next
  assume len: "length samples = nframes * 2"
  have two: "frame_total samples 2 k = samples ! (k * 2) + samples ! (k * 2 + 1)" for k
    by (simp add: numeral_2_eq_2)
  have "to_mono samples 2
          = Inr (map (\<lambda>k. frame_total samples 2 k div int 2) [0..<nframes])"
    using len by (intro to_mono_eq) simp_all
  then show "\<exists>out. to_mono samples 2 = Inr out \<and> length out = nframes
         \<and> (\<forall>k<nframes. out ! k
               = \<lfloor>(of_int (samples ! (k * 2) + samples ! (k * 2 + 1)) :: rat) / 2\<rfloor>)"
    using div_is_floor [of _ 2] by (simp add: two)
next
  show "to_mono [100, - 101] 2 = Inr [- 1]"
    by code_simp
qed

theorem to_mono_floor_division_witness:
  "\<exists>out. to_mono [100, - 101, 7, 8] 2 = Inr out \<and> length out = 2
      \<and> out ! 0 = - 1 \<and> out ! 1 = 7"
proof -
  have f0: "\<lfloor>(of_int ([100, - 101, 7, 8] ! (0 * 2) + [100, - 101, 7, 8 :: int] ! (0 * 2 + 1)) :: rat) / 2\<rfloor> = - 1"
    by code_simp
  have f1: "\<lfloor>(of_int ([100, - 101, 7, 8] ! (1 * 2) + [100, - 101, 7, 8 :: int] ! (1 * 2 + 1)) :: rat) / 2\<rfloor> = 7"
    by code_simp
  have "length [100, - 101, 7, 8 :: int] = 2 * 2" by simp
  with to_mono_floor_division [of _ "[100, - 101, 7, 8]" 2]
  obtain out where o: "to_mono [100, - 101, 7, 8] 2 = Inr out" "length out = 2"
     "\<forall>k<2. out ! k
        = \<lfloor>(of_int ([100, - 101, 7, 8] ! (k * 2) + [100, - 101, 7, 8 :: int] ! (k * 2 + 1)) :: rat) / 2\<rfloor>"
    by blast
  from o(3) have "out ! 0 = - 1" using f0 by (metis pos2)
  moreover from o(3) have "out ! 1 = 7" using f1 by (metis one_less_numeral_iff semiring_norm(76))
  ultimately show ?thesis using o by blast
qed

subsection \<open>Resampling\<close>

lemma int_of_float_of_nat [simp]: "int_of_float (of_nat k) = int k"
  by (simp add: int_of_float_def)

lemma float_add_one:
  assumes "Suc k \<le> 2 ^ 53"
  shows "float_add (of_nat k) 1 = Inr (of_nat (Suc k))"
proof -
  have "\<bar>int (Suc k)\<bar> \<le> 2 ^ 53" using assms
    by (metis abs_of_nat of_nat_le_iff of_nat_numeral of_nat_power)
  from to_double_of_int [OF this] show ?thesis
    by (simp add: float_add_def add.commute)
qed

lemma downsample_loop_unit_ratio:
  "k \<le> length samples \<Longrightarrow> length samples \<le> 2 ^ 53 \<Longrightarrow>
   downsample_loop samples 1 (of_nat k) out = Some (Inr (out @ drop k samples))"
proof (induction "length samples - k" arbitrary: k out)
  case 0
  then have "k = length samples" by simp
  then show ?case by (subst downsample_loop.simps) simp
next
  case (Suc d)
  then have lt: "k < length samples" by simp
  then have get: "py_get samples (int k) = Inr (samples ! k)" by (simp add: py_get_def)
  have add: "float_add (of_nat k) 1 = Inr (of_nat (Suc k))"
    using lt Suc.prems by (intro float_add_one) simp
  have "downsample_loop samples 1 (of_nat (Suc k)) (out @ [samples ! k])
          = Some (Inr ((out @ [samples ! k]) @ drop (Suc k) samples))"
    using Suc.hyps(2) lt Suc.prems by (intro Suc.hyps(1)) simp_all
  then show ?case
    using lt get add by (subst downsample_loop.simps) (simp add: Cons_nth_drop_Suc)
qed

text \<open>
  Claim C9. When the source rate equals the destination rate (and is not zero), the ratio is
  exactly \<open>1.0\<close>, the cursor takes the values \<open>0.0, 1.0, 2.0, \<dots>\<close> exactly, and
  \<open>downsample\<close> returns its input. The cursor is exact up to \<open>2 ^ 53\<close>, which bounds the
  buffer length.
\<close>

theorem downsample_same_rate:
  assumes "rate \<noteq> 0" and "length samples \<le> 2 ^ 53"
  shows "downsample samples rate rate = Some (Inr samples)"
proof -
  have "to_double 1 = Inr 1" using to_double_of_int [of 1] by simp
  then have "int_truediv rate rate = Inr 1" using assms(1) by (simp add: int_truediv_def)
  then show ?thesis
    using downsample_loop_unit_ratio [of 0 samples "[]"] assms(2)
    by (simp add: downsample_def)
qed

theorem downsample_same_rate_witness:
  "downsample [3, - 4, 5] 44100 44100 = Some (Inr [3, - 4, 5])"
  using downsample_same_rate [of 44100 "[3, - 4, 5]"] by simp

lemma int_of_float_nonneg: "0 \<le> x \<Longrightarrow> int_of_float x = \<lfloor>x\<rfloor>"
  by (simp add: int_of_float_def)

lemma downsample_loop_done:
  "of_nat (length samples) \<le> i \<Longrightarrow> downsample_loop samples ratio i out = Some (Inr out)"
proof -
  assume a: "of_nat (length samples) \<le> i"
  then have "0 \<le> i" by (meson of_nat_0_le_iff order_trans)
  moreover have "int (length samples) \<le> \<lfloor>i\<rfloor>" using a by (simp add: le_floor_iff)
  ultimately show ?thesis
    by (subst downsample_loop.simps) (simp add: int_of_float_nonneg)
qed

lemma downsample_loop_step:
  assumes "0 \<le> i" and "i < of_nat (length samples)" and "float_add i ratio = Inr i'"
  shows "downsample_loop samples ratio i out
           = downsample_loop samples ratio i' (out @ [samples ! nat \<lfloor>i\<rfloor>])"
proof -
  have f0: "0 \<le> \<lfloor>i\<rfloor>" using assms(1) by simp
  have f1: "\<lfloor>i\<rfloor> < int (length samples)" using assms(2) by (simp add: floor_less_iff)
  then have "py_get samples \<lfloor>i\<rfloor> = Inr (samples ! nat \<lfloor>i\<rfloor>)"
    using f0 by (simp add: py_get_def)
  then show ?thesis
    using f1 assms by (subst downsample_loop.simps) (simp add: int_of_float_nonneg)
qed

lemma float_add_progress:
  assumes i: "0 \<le> i" "i < L"
    and r1: "2 powi (- 1022) \<le> r" and r2: "L \<le> (2 ^ 52 - 1) * r" and r3: "r \<le> 2 ^ 64"
  shows "\<exists>i'. float_add i r = Inr i' \<and> i + r / 2 \<le> i'"
proof -
  define x where "x = i + r"
  have rpos: "0 < r" using r1 powi_pos [of "- 1022"] by linarith
  have xr: "r \<le> x" using i by (simp add: x_def)
  then have xpos: "0 < x" using rpos by linarith
  have "2 powi (- 1022) \<le> \<bar>x\<bar>" using r1 xr xpos by linarith
  from fl_error_rel [OF this] have err: "\<bar>fl x - x\<bar> \<le> x / 2 ^ 53" using xpos by simp
  have xb: "x < 2 ^ 52 * r" using i r2 by (simp add: x_def algebra_simps)
  then have "x / 2 ^ 53 < r / 2" by (simp add: field_simps)
  with err have lo: "i + r / 2 \<le> fl x" unfolding x_def by linarith
  have "x / 2 ^ 53 \<le> x" using xpos by (simp add: field_simps)
  with err have "\<bar>fl x\<bar> \<le> 2 * x" by linarith
  also have "\<dots> < 2 * (2 ^ 52 * r)" using xb by simp
  also have "\<dots> \<le> 2 * (2 ^ 52 * 2 ^ 64)" using r3 by simp
  also have "\<dots> < 2 ^ 1024" by simp
  finally have "\<not> 2 ^ 1024 \<le> \<bar>fl x\<bar>" by simp
  then have "float_add i r = Inr (fl x)" by (simp add: float_add_def to_double_def x_def)
  with lo show ?thesis by blast
qed

lemma downsample_loop_terminates:
  assumes r1: "2 powi (- 1022) \<le> r"
    and r2: "of_nat (length samples) \<le> (2 ^ 52 - 1) * r" and r3: "r \<le> 2 ^ 64"
  shows "0 \<le> i \<Longrightarrow> of_nat (length samples) - i \<le> of_nat n * (r / 2) \<Longrightarrow>
         \<exists>rest. downsample_loop samples r i out = Some (Inr (out @ rest))"
proof (induction n arbitrary: i out)
  case 0
  then have "of_nat (length samples) \<le> i" by simp
  then show ?case by (simp add: downsample_loop_done)
next
  case (Suc n)
  show ?case
  proof (cases "of_nat (length samples) \<le> i")
    case True
    then show ?thesis by (simp add: downsample_loop_done)
  next
    case False
    then have lt: "i < of_nat (length samples)" by simp
    from float_add_progress [OF Suc.prems(1) lt r1 r2 r3]
    obtain i' where add: "float_add i r = Inr i'" and adv: "i + r / 2 \<le> i'" by blast
    have rpos: "0 < r" using r1 powi_pos [of "- 1022"] by linarith
    have i'0: "0 \<le> i'" using adv Suc.prems(1) rpos by linarith
    have "of_nat (length samples) - i' \<le> of_nat n * (r / 2)"
      using adv Suc.prems(2) by (simp add: algebra_simps)
    from Suc.IH [OF i'0 this, of "out @ [samples ! nat \<lfloor>i\<rfloor>]"]
    obtain rest where
      "downsample_loop samples r i' (out @ [samples ! nat \<lfloor>i\<rfloor>])
         = Some (Inr ((out @ [samples ! nat \<lfloor>i\<rfloor>]) @ rest))" by blast
    then have "downsample_loop samples r i out = Some (Inr (out @ (samples ! nat \<lfloor>i\<rfloor> # rest)))"
      using downsample_loop_step [OF Suc.prems(1) lt add] by simp
    then show ?thesis by blast
  qed
qed

lemma ratio_bounds:
  assumes "samples \<noteq> []" and "0 < src_rate" and "src_rate < 2 ^ 32" and "0 < dst_rate"
    and "int (length samples) * dst_rate \<le> 2 ^ 51 * src_rate"
  shows "\<exists>r. int_truediv src_rate dst_rate = Inr r \<and> 2 powi (- 1022) \<le> r
           \<and> of_nat (length samples) \<le> (2 ^ 52 - 1) * r \<and> r \<le> 2 ^ 64"
proof -
  define x :: rat where "x = of_int src_rate / of_int dst_rate"
  define L :: rat where "L = of_nat (length samples)"
  have dpos: "(0::rat) < of_int dst_rate" using assms(4) by simp
  have xpos: "0 < x" using assms(2,4) by (simp add: x_def)
  have "(of_int (int (length samples) * dst_rate) :: rat) \<le> of_int (2 ^ 51 * src_rate)"
    using assms(5) by (simp only: of_int_le_iff)
  then have "L * of_int dst_rate \<le> 2 ^ 51 * of_int src_rate" by (simp add: L_def)
  then have Lx: "L \<le> 2 ^ 51 * x" using dpos by (simp add: x_def field_simps)
  have "1 \<le> length samples" using assms(1) by (cases samples) simp_all
  then have L1: "1 \<le> L" by (simp add: L_def)
  have "(of_int src_rate :: rat) \<le> of_int src_rate * of_int dst_rate"
    using assms(2,4) by (simp add: mult_le_cancel_left1 flip: of_int_mult)
  then have "x \<le> of_int src_rate" using dpos by (simp add: x_def field_simps)
  also have "(of_int src_rate :: rat) \<le> of_int (2 ^ 32)"
    using assms(3) by (simp only: of_int_le_iff)
  finally have xhi: "x \<le> 2 ^ 32" by simp
  have xlo: "1 / 2 ^ 51 \<le> x" using Lx L1 by (simp add: field_simps)
  have "(2::rat) powi (- 1022) \<le> 2 powi (- 51)" by (rule powi_mono) simp
  also have "(2::rat) powi (- 51) = 1 / 2 ^ 51" by (simp add: power_int_minus_divide)
  finally have "2 powi (- 1022) \<le> \<bar>x\<bar>" using xlo xpos by simp
  from fl_error_rel [OF this] have err: "\<bar>fl x - x\<bar> \<le> x / 2 ^ 53" using xpos by simp
  have small: "x / 2 ^ 53 \<le> x / 2" using xpos by (simp add: field_simps)
  have r1: "2 powi (- 1022) \<le> fl x"
  proof -
    have "(2::rat) powi (- 1022) \<le> 2 powi (- 52)" by (rule powi_mono) simp
    also have "(2::rat) powi (- 52) = 1 / 2 ^ 52" by (simp add: power_int_minus_divide)
    also have "\<dots> \<le> x / 2" using xlo by (simp add: field_simps)
    also have "\<dots> \<le> fl x" using err small by linarith
    finally show ?thesis .
  qed
  have r2: "L \<le> (2 ^ 52 - 1) * fl x"
  proof -
    have "x - x / 2 ^ 53 \<le> fl x" using err by linarith
    then have "(2 ^ 52 - 1) * (x - x / 2 ^ 53) \<le> (2 ^ 52 - 1) * fl x"
      by (intro mult_left_mono) simp_all
    moreover have "2 ^ 51 * x \<le> (2 ^ 52 - 1) * (x - x / 2 ^ 53)"
      using xpos by (simp add: field_simps)
    ultimately show ?thesis using Lx by linarith
  qed
  have "fl x \<le> 2 * x" using err small xpos by linarith
  also have "\<dots> \<le> 2 * 2 ^ 32" using xhi by simp
  finally have fhi: "fl x \<le> 2 ^ 33" by simp
  then have r3: "fl x \<le> 2 ^ 64" by simp
  have "0 \<le> fl x" using r1 powi_pos [of "- 1022"] by linarith
  then have "\<bar>fl x\<bar> \<le> 2 ^ 33" using fhi by simp
  also have "(2::rat) ^ 33 < 2 ^ 1024" by (rule power_strict_increasing) simp_all
  finally have "\<not> 2 ^ 1024 \<le> \<bar>fl x\<bar>" by simp
  then have "int_truediv src_rate dst_rate = Inr (fl x)"
    using assms(4) by (simp add: int_truediv_def to_double_def x_def)
  with r1 r2 r3 show ?thesis unfolding L_def by blast
qed

text \<open>
  Claim C10, as amended. For a nonempty buffer, a source rate from 1 to \<open>2 ^ 32 - 1\<close> (the
  range of a WAV header's sample-rate field), a positive destination rate, and a buffer short
  enough for the cursor to keep moving (\<open>len * dst_rate \<le> 2 ^ 51 * src_rate\<close>),
  \<open>downsample\<close> returns, its output is nonempty, and its first sample is the first sample of
  the input.
\<close>

theorem downsample_keeps_onset:
  assumes "samples \<noteq> []" and "0 < src_rate" and "src_rate < 2 ^ 32" and "0 < dst_rate"
    and "int (length samples) * dst_rate \<le> 2 ^ 51 * src_rate"
  shows "\<exists>out. downsample samples src_rate dst_rate = Some (Inr out)
           \<and> out \<noteq> [] \<and> hd out = hd samples"
proof -
  from ratio_bounds [OF assms] obtain r where
    div: "int_truediv src_rate dst_rate = Inr r" and r1: "2 powi (- 1022) \<le> r"
    and r2: "of_nat (length samples) \<le> (2 ^ 52 - 1) * r" and r3: "r \<le> 2 ^ 64" by blast
  have rpos: "0 < r" using r1 powi_pos [of "- 1022"] by linarith
  have len: "(0::rat) < of_nat (length samples)" using assms(1) by simp
  from float_add_progress [OF order_refl len r1 r2 r3]
  obtain i1 where add: "float_add 0 r = Inr i1" and adv: "0 + r / 2 \<le> i1" by blast
  have i10: "0 \<le> i1" using adv rpos by linarith
  define n where "n = nat \<lceil>of_nat (length samples) / (r / 2)\<rceil>"
  define z where "z = of_nat (length samples) / (r / 2)"
  have "0 \<le> z" using rpos by (simp add: z_def)
  then have "0 \<le> \<lceil>z\<rceil>" by (simp add: zero_le_ceiling)
  then have "(of_nat (nat \<lceil>z\<rceil>) :: rat) = of_int \<lceil>z\<rceil>" by (rule of_nat_nat)
  then have "z \<le> of_nat n" using le_of_int_ceiling [of z] by (simp only: n_def z_def)
  then have "of_nat (length samples) \<le> of_nat n * (r / 2)"
    using rpos by (simp add: z_def field_simps)
  then have "of_nat (length samples) - i1 \<le> of_nat n * (r / 2)" using i10 by linarith
  from downsample_loop_terminates [OF r1 r2 r3 i10 this, of "[samples ! nat \<lfloor>0::rat\<rfloor>]"]
  obtain rest where
    "downsample_loop samples r i1 [samples ! nat \<lfloor>0::rat\<rfloor>]
       = Some (Inr ([samples ! nat \<lfloor>0::rat\<rfloor>] @ rest))" by blast
  then have "downsample_loop samples r 0 [] = Some (Inr (samples ! 0 # rest))"
    using downsample_loop_step [OF order_refl len add, of "[]"] by simp
  then have "downsample samples src_rate dst_rate = Some (Inr (samples ! 0 # rest))"
    by (simp add: downsample_def div)
  moreover have "samples ! 0 = hd samples" using assms(1) by (simp add: hd_conv_nth)
  ultimately show ?thesis by simp
qed

theorem downsample_keeps_onset_witness:
  "\<exists>out. downsample [7, 0, - 3, 12, 5] 44100 16000 = Some (Inr out)
      \<and> out \<noteq> [] \<and> hd out = 7"
  using downsample_keeps_onset [of "[7, 0, - 3, 12, 5]" 44100 16000] by simp

text \<open>
  The claim as written, for all positive rates, fails at both ends of the float range: a ratio
  too large for a float raises \<open>OverflowError\<close>, and a ratio that rounds to \<open>0.0\<close> leaves the
  cursor at \<open>0.0\<close> forever.
\<close>

lemma to_double_overflow:
  assumes "2 ^ 1025 \<le> x"
  shows "to_double x = Inl OverflowError"
proof -
  have p: "(0::rat) < 2 ^ 1025" by simp
  then have xpos: "0 < x" using assms by linarith
  have "(2::rat) powi (- 1022) \<le> 2 powi 1025" by (rule powi_mono) simp
  then have "2 powi (- 1022) \<le> \<bar>x\<bar>" using assms xpos by simp
  from fl_error_rel [OF this] have "\<bar>fl x - x\<bar> \<le> x / 2 ^ 53" using xpos by simp
  moreover have "x / 2 ^ 53 \<le> x / 2" using xpos by (simp add: field_simps)
  ultimately have "x / 2 \<le> fl x" by linarith
  moreover have "(2::rat) ^ 1024 \<le> x / 2" using assms by simp
  ultimately have "2 ^ 1024 \<le> \<bar>fl x\<bar>" by linarith
  then show ?thesis by (simp add: to_double_def)
qed

lemma fl_underflow:
  assumes "0 < x" and "x < 2 powi (- 1075)"
  shows "fl x = 0"
proof -
  have "ilog2 \<bar>x\<bar> < - 1075" using assms by (intro ilog2_less) simp_all
  then have e: "max (ilog2 \<bar>x\<bar> - 52) (- 1074) = - 1074" by simp
  have "(2::rat) powi (- 1074) = 2 * 2 powi (- 1075)"
    using powi_succ [of "- 1075"] by simp
  then have "2 * x < 2 powi (- 1074)" using assms(2) by simp
  then have lt: "x / 2 powi (- 1074) < 1 / 2"
    by (simp add: field_simps)
  have ge: "0 \<le> x / 2 powi (- 1074)" using assms(1) by simp
  then have "\<lfloor>x / 2 powi (- 1074)\<rfloor> = 0" using lt by (simp add: floor_eq_iff)
  then have "round_half_even (x / 2 powi (- 1074)) = 0"
    using lt by (simp add: round_half_even_def)
  then show ?thesis using assms(1) e by (simp add: fl_def Let_def)
qed

lemma downsample_loop_zero_ratio:
  assumes run: "downsample_loop samples ratio i out = Some y"
  shows "\<not> (ratio = 0 \<and> i = 0 \<and> samples \<noteq> [])"
proof (rule downsample_loop.raw_induct
    [where P = "\<lambda>s r j acc z. \<not> (r = 0 \<and> j = 0 \<and> s \<noteq> [])", OF _ run])
  fix f :: "int list \<Rightarrow> rat \<Rightarrow> rat \<Rightarrow> int list \<Rightarrow> (py_error + int list) option"
  fix s r j acc z
  assume IH: "\<And>s r j acc z. f s r j acc = Some z \<Longrightarrow> \<not> (r = 0 \<and> j = 0 \<and> s \<noteq> [])"
  assume body:
    "(if int_of_float j < int (length s)
      then case py_get s (int_of_float j) of Inl e \<Rightarrow> Some (Inl e)
           | Inr v \<Rightarrow>
               case float_add j r of Inl e \<Rightarrow> Some (Inl e)
               | Inr i' \<Rightarrow> f s r i' (acc @ [v])
      else Some (Inr acc)) = Some z"
  show "\<not> (r = 0 \<and> j = 0 \<and> s \<noteq> [])"
  proof
    assume a: "r = 0 \<and> j = 0 \<and> s \<noteq> []"
    then have len: "0 < length s" by simp
    have get: "py_get s 0 = Inr (s ! 0)" using len by (simp add: py_get_def)
    have add: "float_add 0 0 = Inr 0" by (simp add: float_add_def to_double_def fl_def)
    from body a len get add have "f s 0 0 (acc @ [s ! 0]) = Some z"
      by (simp add: int_of_float_def)
    from IH [OF this] a show False by simp
  qed
qed

lemma downsample_loop_stuck:
  assumes "samples \<noteq> []"
  shows "downsample_loop samples 0 0 out = None"
proof (cases "downsample_loop samples 0 0 out")
  case None
  then show ?thesis .
next
  case (Some y)
  from downsample_loop_zero_ratio [OF this] assms show ?thesis by simp
qed

theorem downsample_extreme_rates_counterexample:
  "downsample [3] (2 ^ 1100) 1 = Some (Inl OverflowError) \<and> downsample [3] 1 (2 ^ 1080) = None"
proof
  have "(2::rat) ^ 1025 \<le> 2 ^ 1100" by (rule power_increasing) simp_all
  then have "to_double (2 ^ 1100) = Inl OverflowError" by (rule to_double_overflow)
  then show "downsample [3] (2 ^ 1100) 1 = Some (Inl OverflowError)"
    by (simp add: downsample_def int_truediv_def)
next
  have "(1::rat) / 2 ^ 1080 = 2 powi (- 1080)" by (simp add: power_int_minus_divide)
  moreover have "(2::rat) powi (- 1080) < 2 powi (- 1075)"
    by (rule power_int_strict_increasing) simp_all
  ultimately have "fl (1 / 2 ^ 1080) = 0" by (intro fl_underflow) simp_all
  then have "int_truediv 1 (2 ^ 1080) = Inr 0"
    by (simp add: int_truediv_def to_double_def)
  then show "downsample [3] 1 (2 ^ 1080) = None"
    by (simp add: downsample_def downsample_loop_stuck)
qed

subsection \<open>Silence trimming and block alignment\<close>

lemma trim_scan_quiet:
  "\<forall>s\<in>set samples. \<bar>s\<bar> \<le> threshold \<Longrightarrow> trim_scan samples threshold i start = start"
  by (induction samples arbitrary: i) auto

lemma trim_scan_first:
  "k < length samples \<Longrightarrow> threshold < \<bar>samples ! k\<bar> \<Longrightarrow>
   \<forall>j<k. \<bar>samples ! j\<bar> \<le> threshold \<Longrightarrow>
   trim_scan samples threshold i start = i + int k"
proof (induction samples arbitrary: i k)
  case Nil
  then show ?case by simp
next
  case (Cons s rest)
  show ?case
  proof (cases k)
    case 0
    with Cons.prems show ?thesis by simp
  next
    case (Suc k')
    from Cons.prems Suc have quiet: "\<bar>s\<bar> \<le> threshold" by auto
    from Cons.prems Suc have "k' < length rest" "threshold < \<bar>rest ! k'\<bar>"
      "\<forall>j<k'. \<bar>rest ! j\<bar> \<le> threshold" by auto
    from Cons.IH [OF this, of "i + 1"] quiet Suc show ?thesis by simp
  qed
qed

text \<open>
  Claim C4. When no sample's absolute value exceeds the threshold, \<open>trim_silence\<close> returns
  the buffer as it is: the same samples, hence the same length, and not the empty buffer
  (unless the input was empty).
\<close>

theorem trim_silence_quiet_unchanged:
  "\<forall>s\<in>set samples. \<bar>s\<bar> \<le> threshold \<Longrightarrow> trim_silence samples threshold = samples"
  by (simp add: trim_silence_def trim_scan_quiet)

theorem trim_silence_quiet_unchanged_witness:
  "trim_silence [0, 5, - 800, 800] 800 = [0, 5, - 800, 800]"
  using trim_silence_quiet_unchanged [of "[0, 5, - 800, 800]" 800] by simp

text \<open>
  Claim C6. When \<open>k\<close> is the index of the first sample whose absolute value exceeds the
  threshold, \<open>trim_silence\<close> returns the samples from index \<open>max 0 (k - 16)\<close> to the end.
  For a hundred zeros followed by a sample above the threshold that index is 84.
\<close>

theorem trim_silence_lookback:
  assumes "k < length samples" and "threshold < \<bar>samples ! k\<bar>"
    and "\<forall>j<k. \<bar>samples ! j\<bar> \<le> threshold"
  shows "trim_silence samples threshold = drop (nat (max 0 (int k - 16))) samples"
  using trim_scan_first [OF assms, of 0 0] by (simp add: trim_silence_def)

theorem trim_silence_lookback_witness:
  "trim_silence (replicate 100 0 @ [801, 7, - 9]) 800 = drop 84 (replicate 100 0 @ [801, 7, - 9])"
proof -
  let ?xs = "replicate 100 0 @ [801, 7, - 9 :: int]"
  have a: "100 < length ?xs" by simp
  have b: "800 < \<bar>?xs ! 100\<bar>" by (simp add: nth_append)
  have c: "\<forall>j<100. \<bar>?xs ! j\<bar> \<le> 800" by (simp add: nth_append)
  show ?thesis using trim_silence_lookback [OF a b c] by simp
qed

text \<open>
  Claim C7. The output of \<open>align_brr\<close> has a length divisible by 16, is fewer than 16 samples
  longer than the input, is the input followed by zeros only, and is the input itself when the
  input length is already a multiple of 16 (the empty buffer included).
\<close>

theorem align_brr_pads:
  "length (align_brr samples) mod 16 = 0
   \<and> length samples \<le> length (align_brr samples)
   \<and> length (align_brr samples) - length samples < 16
   \<and> align_brr samples = samples @ replicate (length (align_brr samples) - length samples) 0
   \<and> (length samples mod 16 = 0 \<longrightarrow> align_brr samples = samples)"
proof -
  let ?r = "length samples mod 16"
  have r: "?r < 16" by simp
  show ?thesis
  proof (cases "?r = 0")
    case True
    then show ?thesis by (simp add: align_brr_def)
  next
    case False
    have "(length samples + (16 - ?r)) mod 16 = 0"
      using r False by presburger
    with False r show ?thesis by (simp add: align_brr_def Let_def)
  qed
qed

theorem align_brr_pads_witness:
  "length (replicate 32 (5::int)) mod 16 = 0 \<and> align_brr (replicate 32 5) = replicate 32 5 \<and> align_brr [] = []"
  using align_brr_pads [of "replicate 32 5"] align_brr_pads [of "[]"] by simp

subsection \<open>Normalization\<close>

lemma abs_int_of_float: "\<bar>int_of_float z\<bar> = \<lfloor>\<bar>z\<bar>\<rfloor>"
proof (cases "0 \<le> z")
  case True
  then show ?thesis by (simp add: int_of_float_def)
next
  case False
  then have "0 \<le> \<lfloor>- z\<rfloor>" by simp
  then show ?thesis using False by (simp add: int_of_float_def ceiling_def)
qed

text \<open>The relative error of two roundings in a row stays far below one part in \<open>32768\<close>.\<close>

lemma scale_sample_bounds:
  assumes t: "0 < t" "t < 32768" and p: "0 < p" "p \<le> 32768" and s: "\<bar>s\<bar> \<le> p"
  shows "\<exists>v. scale_sample (fl (of_int t / of_int p)) s = Inr v \<and> \<bar>v\<bar> \<le> t
           \<and> (\<bar>s\<bar> = p \<longrightarrow> t - 1 \<le> \<bar>v\<bar>)"
proof -
  define x :: rat where "x = of_int t / of_int p"
  define q where "q = fl x"
  define T :: rat where "T = of_int t"
  define P :: rat where "P = of_int p"
  define S :: rat where "S = \<bar>of_int s\<bar>"
  define u :: rat where "u = 1 / 2 ^ 53"
  have Tlo: "1 \<le> T" using t(1) by (simp add: T_def)
  have "t \<le> 32767" using t(2) by simp
  then have "(of_int t :: rat) \<le> of_int 32767" by (simp only: of_int_le_iff)
  then have Thi: "T \<le> 32767" by (simp add: T_def)
  have Plo: "1 \<le> P" using p(1) by (simp add: P_def)
  have "(of_int p :: rat) \<le> of_int 32768" using p(2) by (simp only: of_int_le_iff)
  then have Phi: "P \<le> 32768" by (simp add: P_def)
  have PxT: "P * x = T" using Plo by (simp add: x_def P_def T_def)
  have xpos: "0 < x" using Tlo Plo by (simp add: x_def P_def T_def)
  have "1 \<le> P * x" using PxT Tlo by simp
  also have "P * x \<le> 32768 * x" using Phi xpos by (intro mult_right_mono) simp_all
  finally have xlo: "1 / 32768 \<le> x" by simp
  have "(2::rat) powi (- 1022) \<le> 2 powi (- 15)" by (rule powi_mono) simp
  also have "(2::rat) powi (- 15) = 1 / 32768" by (simp add: power_int_minus_divide)
  finally have "2 powi (- 1022) \<le> \<bar>x\<bar>" using xlo xpos by simp
  from fl_error_rel [OF this] have qerr: "\<bar>q - x\<bar> \<le> x * u"
    using xpos by (simp add: q_def u_def)
  have upos: "0 < u" and u1: "u \<le> 1 / 2" by (simp_all add: u_def)
  have qlo: "x * (1 - u) \<le> q" and qhi: "q \<le> x * (1 + u)"
    using qerr by (simp_all add: algebra_simps abs_le_iff)
  have "0 < x * (1 - u)" using xpos u1 by (intro mult_pos_pos) simp_all
  then have qpos: "0 < q" using qlo by linarith
  have "\<bar>s\<bar> \<le> 2 ^ 53" using s p(2) by simp
  from to_double_of_int [OF this]
  have conv: "to_double (of_int s) = Inr (of_int s)" .
  define y where "y = of_int s * q"
  have yabs: "\<bar>y\<bar> = S * q" using qpos by (simp add: y_def S_def abs_mult)
  have "(of_int \<bar>s\<bar> :: rat) \<le> of_int p" using s by (simp only: of_int_le_iff)
  then have SP: "S \<le> P" by (simp add: S_def P_def)
  have S0: "0 \<le> S" by (simp add: S_def)
  show ?thesis
  proof (cases "s = 0")
    case True
    have "to_double 0 = Inr 0" by (simp add: to_double_def fl_def)
    then have "scale_sample q 0 = Inr 0"
      by (simp add: scale_sample_def int_mul_float_def int_of_float_def)
    then show ?thesis using True t(1) p(1) by (simp add: q_def x_def)
  next
    case False
    then have "1 \<le> \<bar>s\<bar>" by simp
    then have "(of_int 1 :: rat) \<le> of_int \<bar>s\<bar>" by (simp only: of_int_le_iff)
    then have S1: "1 \<le> S" by (simp add: S_def)
    have "1 * q \<le> S * q" using S1 qpos by (intro mult_right_mono) simp_all
    then have "x * (1 - u) \<le> S * q" using qlo by simp
    moreover have "x / 2 \<le> x * (1 - u)" using xpos u1 by (simp add: field_simps)
    ultimately have "1 / 65536 \<le> \<bar>y\<bar>" using xlo yabs by linarith
    moreover have "(2::rat) powi (- 1022) \<le> 2 powi (- 16)" by (rule powi_mono) simp
    moreover have "(2::rat) powi (- 16) = 1 / 65536" by (simp add: power_int_minus_divide)
    ultimately have "2 powi (- 1022) \<le> \<bar>y\<bar>" by linarith
    from fl_error_rel [OF this] have yerr: "\<bar>fl y - y\<bar> \<le> \<bar>y\<bar> * u" by (simp add: u_def)
    have "\<bar>y\<bar> \<le> P * q" unfolding yabs using SP qpos by (intro mult_right_mono) simp_all
    also have "P * q \<le> P * (x * (1 + u))" using qhi Plo by (intro mult_left_mono) simp_all
    also have "\<dots> = T * (1 + u)" using PxT by (simp add: mult.assoc [symmetric])
    finally have yhi: "\<bar>y\<bar> \<le> T * (1 + u)" .
    have "\<bar>fl y\<bar> \<le> \<bar>y\<bar> + \<bar>y\<bar> * u" using yerr by linarith
    then have "\<bar>fl y\<bar> \<le> \<bar>y\<bar> * (1 + u)" by (simp add: algebra_simps)
    also have "\<dots> \<le> T * (1 + u) * (1 + u)" using yhi upos by (intro mult_right_mono) simp_all
    also have "\<dots> = T + T * (2 * u + u * u)" by (simp add: algebra_simps)
    finally have f1: "\<bar>fl y\<bar> \<le> T + T * (2 * u + u * u)" .
    have "T * (2 * u + u * u) \<le> 32767 * (2 * u + u * u)"
      using Thi upos by (intro mult_right_mono) simp_all
    moreover have "32767 * (2 * u + u * u) < 1" by (simp add: u_def)
    ultimately have fhi: "\<bar>fl y\<bar> < T + 1" using f1 by linarith
    have "(2::rat) ^ 15 \<le> 2 ^ 1024" by (rule power_increasing) simp_all
    then have "T + 1 \<le> 2 ^ 1024" using Thi by simp
    then have nov: "\<not> 2 ^ 1024 \<le> \<bar>fl y\<bar>" using fhi by linarith
    have "int_mul_float s q = to_double y" by (simp only: int_mul_float_def conv y_def sum.case)
    then have mul: "int_mul_float s q = Inr (fl y)"
      using nov by (simp add: to_double_def)
    define v0 where "v0 = int_of_float (fl y)"
    have av0: "\<bar>v0\<bar> = \<lfloor>\<bar>fl y\<bar>\<rfloor>" by (simp add: v0_def abs_int_of_float)
    have "\<bar>fl y\<bar> < of_int (t + 1)" using fhi by (simp add: T_def)
    then have "\<lfloor>\<bar>fl y\<bar>\<rfloor> < t + 1" by (simp only: floor_less_iff)
    then have v0t: "\<bar>v0\<bar> \<le> t" using av0 by simp
    then have clamp: "max (- 32768) (min 32767 v0) = v0" using t(2) by simp
    have "scale_sample q s = Inr (max (- 32768) (min 32767 v0))"
      by (simp only: scale_sample_def mul v0_def sum.case)
    then have res: "scale_sample q s = Inr v0" by (simp only: clamp)
    have low: "t - 1 \<le> \<bar>v0\<bar>" if eq: "\<bar>s\<bar> = p"
    proof -
      have "(of_int \<bar>s\<bar> :: rat) = of_int p" using eq by simp
      then have "S = P" by (simp add: S_def P_def)
      then have "\<bar>y\<bar> = P * q" by (simp add: yabs)
      moreover have "P * (x * (1 - u)) \<le> P * q" using qlo Plo by (intro mult_left_mono) simp_all
      moreover have "P * (x * (1 - u)) = T * (1 - u)" using PxT by (simp add: mult.assoc [symmetric])
      ultimately have ylo: "T * (1 - u) \<le> \<bar>y\<bar>" by simp
      have "\<bar>y\<bar> - \<bar>y\<bar> * u \<le> \<bar>fl y\<bar>" using yerr by linarith
      then have g1: "\<bar>y\<bar> * (1 - u) \<le> \<bar>fl y\<bar>" by (simp add: algebra_simps)
      have g2: "T * (1 - u) * (1 - u) \<le> \<bar>y\<bar> * (1 - u)"
        using ylo u1 by (intro mult_right_mono) simp_all
      have g3: "T * (1 - u) * (1 - u) = T - T * (2 * u - u * u)" by (simp add: algebra_simps)
      have "0 \<le> 2 * u - u * u" by (simp add: u_def)
      then have g4: "T * (2 * u - u * u) \<le> 32767 * (2 * u - u * u)"
        using Thi by (intro mult_right_mono) simp_all
      have g5: "32767 * (2 * u - u * u) < 1" by (simp add: u_def)
      from g1 g2 g3 g4 g5 have "T - 1 \<le> \<bar>fl y\<bar>" by linarith
      then have "of_int (t - 1) \<le> \<bar>fl y\<bar>" by (simp add: T_def)
      then have "t - 1 \<le> \<lfloor>\<bar>fl y\<bar>\<rfloor>" by (simp only: le_floor_iff)
      then show ?thesis using av0 by simp
    qed
    from res v0t low show ?thesis by (simp add: q_def x_def)
  qed
qed

lemma int_truediv_scale:
  assumes t: "0 < t" "t < 32768" and p: "0 < p" "p \<le> 32768"
  shows "int_truediv t p = Inr (fl (of_int t / of_int p))"
proof -
  define x :: rat where "x = of_int t / of_int p"
  have Plo: "(1::rat) \<le> of_int p" using p(1) by simp
  have "(of_int p :: rat) \<le> of_int 32768" using p(2) by (simp only: of_int_le_iff)
  then have Phi: "(of_int p :: rat) \<le> 32768" by simp
  have Tlo: "(1::rat) \<le> of_int t" using t(1) by simp
  have "t \<le> 32767" using t(2) by simp
  then have "(of_int t :: rat) \<le> of_int 32767" by (simp only: of_int_le_iff)
  then have Thi: "(of_int t :: rat) \<le> 32767" by simp
  have xhi: "x \<le> 32767" using Plo Thi by (simp add: x_def field_simps)
  have "1 \<le> of_int p * x" using Plo Tlo by (simp add: x_def)
  moreover have xpos: "0 < x" using Plo Tlo by (simp add: x_def)
  moreover have "of_int p * x \<le> 32768 * x" using Phi xpos by (intro mult_right_mono) simp_all
  ultimately have xlo: "1 / 32768 \<le> x" by simp
  have "(2::rat) powi (- 1022) \<le> 2 powi (- 15)" by (rule powi_mono) simp
  also have "(2::rat) powi (- 15) = 1 / 32768" by (simp add: power_int_minus_divide)
  finally have "2 powi (- 1022) \<le> \<bar>x\<bar>" using xlo xpos by simp
  from fl_error_rel [OF this] have "\<bar>fl x - x\<bar> \<le> x / 2 ^ 53" using xpos by simp
  moreover have "x / 2 ^ 53 \<le> x" using xpos by (simp add: field_simps)
  ultimately have "\<bar>fl x\<bar> \<le> 2 * x" by linarith
  then have "\<bar>fl x\<bar> \<le> 65534" using xhi by linarith
  moreover have "(2::rat) ^ 16 \<le> 2 ^ 1024" by (rule power_increasing) simp_all
  ultimately have "\<not> 2 ^ 1024 \<le> \<bar>fl x\<bar>" by simp
  then have "to_double x = Inr (fl x)" by (simp add: to_double_def)
  then show ?thesis using p(1) by (simp add: int_truediv_def x_def)
qed

lemma scale_all_bounds:
  assumes t: "0 < t" "t < 32768" and p: "0 < p" "p \<le> 32768"
  shows "\<forall>s\<in>set xs. \<bar>s\<bar> \<le> p \<Longrightarrow>
         \<exists>out. scale_all (fl (of_int t / of_int p)) xs = Inr out
           \<and> list_all2 (\<lambda>s v. \<bar>v\<bar> \<le> t \<and> (\<bar>s\<bar> = p \<longrightarrow> t - 1 \<le> \<bar>v\<bar>)) xs out"
proof (induction xs)
  case Nil
  show ?case by simp
next
  case (Cons s rest)
  then have "\<bar>s\<bar> \<le> p" by simp
  from scale_sample_bounds [OF t p this] obtain v where
    v: "scale_sample (fl (of_int t / of_int p)) s = Inr v" "\<bar>v\<bar> \<le> t"
       "\<bar>s\<bar> = p \<longrightarrow> t - 1 \<le> \<bar>v\<bar>" by blast
  from Cons obtain vs where
    vs: "scale_all (fl (of_int t / of_int p)) rest = Inr vs"
        "list_all2 (\<lambda>s v. \<bar>v\<bar> \<le> t \<and> (\<bar>s\<bar> = p \<longrightarrow> t - 1 \<le> \<bar>v\<bar>)) rest vs" by auto
  show ?case using v vs by simp
qed

lemma peak_of_props:
  assumes "samples \<noteq> []"
  shows "(\<forall>s\<in>set samples. \<bar>s\<bar> \<le> peak_of samples) \<and> (\<exists>s\<in>set samples. \<bar>s\<bar> = peak_of samples)"
proof -
  let ?A = "set (map abs samples)"
  have fin: "finite ?A" and ne: "?A \<noteq> {}" using assms by simp_all
  have "Max ?A \<in> ?A" using fin ne by (rule Max_in)
  then have "\<exists>s\<in>set samples. \<bar>s\<bar> = Max ?A" by auto
  moreover have "\<forall>s\<in>set samples. \<bar>s\<bar> \<le> Max ?A" using fin by auto
  ultimately show ?thesis using assms by (simp add: peak_of_def)
qed

lemma normalize_scaled:
  assumes ne: "samples \<noteq> []" and rng: "list_all in_int16 samples"
    and nz: "Max (set (map abs samples)) \<noteq> 0"
    and t: "0 < t" "t < 32768"
  shows "\<exists>out. normalize samples t = Inr out
     \<and> list_all2 (\<lambda>s v. \<bar>v\<bar> \<le> t \<and> (\<bar>s\<bar> = peak_of samples \<longrightarrow> t - 1 \<le> \<bar>v\<bar>)) samples out"
proof -
  define p where "p = peak_of samples"
  from peak_of_props [OF ne] have le: "\<forall>s\<in>set samples. \<bar>s\<bar> \<le> p"
    and at: "\<exists>s\<in>set samples. \<bar>s\<bar> = p" by (simp_all add: p_def)
  have pnz: "p \<noteq> 0" using nz ne by (simp add: p_def peak_of_def)
  from at have "0 \<le> p" by auto
  then have p0: "0 < p" using pnz by simp
  from at rng have p1: "p \<le> 32768" by (auto simp add: list_all_iff in_int16_def)
  from scale_all_bounds [OF t p0 p1 le] obtain out where
    "scale_all (fl (of_int t / of_int p)) samples = Inr out"
    "list_all2 (\<lambda>s v. \<bar>v\<bar> \<le> t \<and> (\<bar>s\<bar> = p \<longrightarrow> t - 1 \<le> \<bar>v\<bar>)) samples out" by blast
  then show ?thesis
    using pnz int_truediv_scale [OF t p0 p1] by (simp add: normalize_def p_def [symmetric])
qed

text \<open>
  Claim C3. For a nonempty buffer of 16-bit samples that is not all zero, and a target peak
  from 1 to 32767, \<open>normalize\<close> returns a buffer of the same length whose largest absolute
  value is \<open>target_peak\<close> or \<open>target_peak - 1\<close>: the two roundings (of the scale and of the
  product) move the peak sample by far less than one, and the truncation loses less than one.
\<close>

theorem normalize_reaches_target_peak:
  assumes "samples \<noteq> []" and "list_all in_int16 samples"
    and "Max (set (map abs samples)) \<noteq> 0"
    and "0 < target_peak" and "target_peak < 32768"
  shows "\<exists>out. normalize samples target_peak = Inr out \<and> length out = length samples
           \<and> target_peak - 1 \<le> Max (set (map abs out))
           \<and> Max (set (map abs out)) \<le> target_peak"
proof -
  from normalize_scaled [OF assms] obtain out where
    run: "normalize samples target_peak = Inr out"
    and rel: "list_all2 (\<lambda>s v. \<bar>v\<bar> \<le> target_peak
                \<and> (\<bar>s\<bar> = peak_of samples \<longrightarrow> target_peak - 1 \<le> \<bar>v\<bar>)) samples out"
    by blast
  have len: "length out = length samples" using rel by (simp add: list_all2_lengthD)
  then have one: "out \<noteq> []" using assms(1) by auto
  let ?B = "set (map abs out)"
  have fin: "finite ?B" and ne: "?B \<noteq> {}" using one by simp_all
  have "\<forall>v\<in>set out. \<bar>v\<bar> \<le> target_peak"
    using rel by (auto simp add: list_all2_conv_all_nth in_set_conv_nth)
  then have hi: "Max ?B \<le> target_peak" using fin ne by (simp add: Max_le_iff)
  from peak_of_props [OF assms(1)] obtain s where "s \<in> set samples" "\<bar>s\<bar> = peak_of samples"
    by blast
  then obtain i where "i < length samples" "\<bar>samples ! i\<bar> = peak_of samples"
    by (auto simp add: in_set_conv_nth)
  then have "i < length out" "target_peak - 1 \<le> \<bar>out ! i\<bar>"
    using rel len by (simp_all add: list_all2_conv_all_nth)
  then have "\<exists>b\<in>?B. target_peak - 1 \<le> b" by (auto intro: nth_mem)
  then have lo: "target_peak - 1 \<le> Max ?B" using fin ne by (simp add: Max_ge_iff)
  from run len lo hi show ?thesis by blast
qed

theorem normalize_reaches_target_peak_witness:
  "\<exists>out. normalize [0, 5000, - 10000, 32] 28000 = Inr out \<and> length out = 4
      \<and> 27999 \<le> Max (set (map abs out)) \<and> Max (set (map abs out)) \<le> 28000"
  using normalize_reaches_target_peak [of "[0, 5000, - 10000, 32]" 28000]
  by (auto simp add: in_int16_def)

text \<open>
  Claim C5. A nonempty buffer whose peak is zero is returned as it is, before any division.
  For the empty buffer the peak is taken to be 1, the division \<open>target_peak / 1\<close> is made and
  the comprehension over no samples gives the empty buffer again; that division cannot fail
  for a target peak that is exact as a float (up to \<open>2 ^ 53\<close> in absolute value).
\<close>

theorem normalize_silent_unchanged:
  "(samples \<noteq> [] \<and> Max (set (map abs samples)) = 0 \<longrightarrow> normalize samples target_peak = Inr samples)
   \<and> (\<bar>target_peak\<bar> \<le> 2 ^ 53 \<longrightarrow> normalize [] target_peak = Inr [])"
proof (intro conjI impI)
  assume "samples \<noteq> [] \<and> Max (set (map abs samples)) = 0"
  then show "normalize samples target_peak = Inr samples"
    by (simp add: normalize_def peak_of_def)
next
  assume "\<bar>target_peak\<bar> \<le> 2 ^ 53"
  from to_double_of_int [OF this] have "int_truediv target_peak 1 = Inr (of_int target_peak)"
    by (simp add: int_truediv_def)
  then show "normalize [] target_peak = Inr []"
    by (simp add: normalize_def peak_of_def)
qed

theorem normalize_silent_unchanged_witness:
  "normalize [0, 0, 0] 28000 = Inr [0, 0, 0] \<and> normalize [] 28000 = Inr []"
  using normalize_silent_unchanged [of "[0, 0, 0]" 28000] by simp

subsection \<open>The amplitude range\<close>

lemma py_get_member: "py_get xs i = Inr v \<Longrightarrow> v \<in> set xs"
  by (auto simp add: py_get_def split: if_splits)

lemma frame_sum_range:
  "frame_sum samples i nch c s = Inr r \<Longrightarrow> list_all in_int16 samples \<Longrightarrow> c \<le> nch \<Longrightarrow>
   s - 32768 * int (nch - c) \<le> r \<and> r \<le> s + 32767 * int (nch - c)"
proof (induction samples i nch c s rule: frame_sum.induct)
  case (1 samples i nch c s)
  show ?case
  proof (cases "c < nch")
    case True
    from "1.prems"(1) True obtain v where
      get: "py_get samples (int (i + c)) = Inr v"
      and rest: "frame_sum samples i nch (Suc c) (s + v) = Inr r"
      by (subst (asm) frame_sum.simps) (auto split: sum.splits)
    from py_get_member [OF get] "1.prems"(2) have v: "- 32768 \<le> v" "v \<le> 32767"
      by (auto simp add: list_all_iff in_int16_def)
    from "1.IH" [OF True get rest "1.prems"(2)] True
    have "s + v - 32768 * int (nch - Suc c) \<le> r \<and> r \<le> s + v + 32767 * int (nch - Suc c)"
      by simp
    moreover have "int (nch - c) = int (nch - Suc c) + 1" using True by simp
    ultimately show ?thesis using v by simp
  next
    case False
    with "1.prems" show ?thesis by (subst (asm) frame_sum.simps) simp
  qed
qed

lemma floor_div_range:
  assumes "0 < n" and "- 32768 * int n \<le> s" and "s \<le> 32767 * int n"
  shows "in_int16 (s div int n)"
proof -
  have n: "0 < int n" using assms(1) by simp
  have "(- 32768 * int n) div int n \<le> s div int n" using assms(2) n by (intro zdiv_mono1)
  moreover have "(- 32768 * int n) div int n = - 32768" using n by (intro nonzero_mult_div_cancel_right) simp
  moreover have "s div int n \<le> (32767 * int n) div int n" using assms(3) n by (intro zdiv_mono1)
  moreover have "(32767 * int n) div int n = 32767" using n by (intro nonzero_mult_div_cancel_right) simp
  ultimately show ?thesis by (simp only: in_int16_def)
qed

lemma mono_loop_range:
  "mono_loop samples nch i acc = Inr out \<Longrightarrow> list_all in_int16 samples \<Longrightarrow>
   list_all in_int16 acc \<Longrightarrow> list_all in_int16 out"
proof (induction samples nch i acc rule: mono_loop.induct)
  case (1 samples nch i acc)
  from "1.prems"(1) have nz: "nch \<noteq> 0"
    by (subst (asm) mono_loop.simps) (simp split: if_splits)
  show ?case
  proof (cases "i < length samples")
    case True
    from "1.prems"(1) nz True obtain s where
      sum: "frame_sum samples i nch 0 0 = Inr s"
      and rest: "mono_loop samples nch (i + nch) (acc @ [s div int nch]) = Inr out"
      by (subst (asm) mono_loop.simps) (auto split: sum.splits)
    from frame_sum_range [OF sum "1.prems"(2)]
    have "- 32768 * int nch \<le> s" "s \<le> 32767 * int nch" by simp_all
    with nz have "in_int16 (s div int nch)" by (intro floor_div_range) simp_all
    then have "list_all in_int16 (acc @ [s div int nch])" using "1.prems"(3) by simp
    from "1.IH" [OF nz True sum rest "1.prems"(2) this] show ?thesis .
  next
    case False
    with "1.prems" nz show ?thesis by (subst (asm) mono_loop.simps) simp
  qed
qed

lemma downsample_loop_members:
  assumes run: "downsample_loop samples ratio i out = Some y"
  shows "\<forall>res. y = Inr res \<longrightarrow> set res \<subseteq> set out \<union> set samples"
proof (rule downsample_loop.raw_induct
    [where P = "\<lambda>s r j acc z. \<forall>res. z = Inr res \<longrightarrow> set res \<subseteq> set acc \<union> set s", OF _ run])
  fix f :: "int list \<Rightarrow> rat \<Rightarrow> rat \<Rightarrow> int list \<Rightarrow> (py_error + int list) option"
  fix s r j acc z
  assume IH: "\<And>s r j acc z. f s r j acc = Some z
                \<Longrightarrow> \<forall>res. z = Inr res \<longrightarrow> set res \<subseteq> set acc \<union> set s"
  assume body:
    "(if int_of_float j < int (length s)
      then case py_get s (int_of_float j) of Inl e \<Rightarrow> Some (Inl e)
           | Inr v \<Rightarrow>
               case float_add j r of Inl e \<Rightarrow> Some (Inl e)
               | Inr i' \<Rightarrow> f s r i' (acc @ [v])
      else Some (Inr acc)) = Some z"
  show "\<forall>res. z = Inr res \<longrightarrow> set res \<subseteq> set acc \<union> set s"
  proof (intro allI impI)
    fix res
    assume z: "z = Inr res"
    show "set res \<subseteq> set acc \<union> set s"
    proof (cases "int_of_float j < int (length s)")
      case False
      with body z show ?thesis by simp
    next
      case True
      with body z obtain v i' where
        get: "py_get s (int_of_float j) = Inr v" and "float_add j r = Inr i'"
        and rest: "f s r i' (acc @ [v]) = Some (Inr res)"
        by (auto split: sum.splits)
      from IH [OF rest] have "set res \<subseteq> set (acc @ [v]) \<union> set s" by simp
      then show ?thesis using py_get_member [OF get] by auto
    qed
  qed
qed

lemma scale_sample_range: "scale_sample scale s = Inr v \<Longrightarrow> in_int16 v"
  by (auto simp add: scale_sample_def in_int16_def split: sum.splits)

lemma scale_all_range: "scale_all scale xs = Inr out \<Longrightarrow> list_all in_int16 out"
proof (induction xs arbitrary: out)
  case Nil
  then show ?case by simp
next
  case (Cons s rest)
  then show ?case by (auto split: sum.splits dest: scale_sample_range)
qed

text \<open>
  Claim C8. When every sample of the input lies in \<open>[-32768, 32767]\<close>, so does every sample
  of what a stage returns: the downmix (the floor of an average of values in the range), the
  resampler (it only copies input samples), the silence trimmer and the duration truncation
  (a suffix and a prefix of the input), \<open>normalize\<close> (the input itself, or clamped values) and
  \<open>align_brr\<close> (the input followed by zeros). A stage that raises or never returns has no
  output.
\<close>

theorem stages_keep_int16_range:
  assumes "list_all in_int16 samples"
  shows "(\<forall>out. to_mono samples nch = Inr out \<longrightarrow> list_all in_int16 out)
       \<and> (\<forall>out. downsample samples src_rate dst_rate = Some (Inr out) \<longrightarrow> list_all in_int16 out)
       \<and> list_all in_int16 (trim_silence samples threshold)
       \<and> (\<forall>out. truncate_duration samples max_dur = Inr out \<longrightarrow> list_all in_int16 out)
       \<and> (\<forall>out. normalize samples target_peak = Inr out \<longrightarrow> list_all in_int16 out)
       \<and> list_all in_int16 (align_brr samples)"
proof (intro conjI allI impI)
  fix out
  assume "to_mono samples nch = Inr out"
  then show "list_all in_int16 out"
    using mono_loop_range [of samples nch 0 "[]" out] assms by (simp add: to_mono_def)
next
  fix out
  assume run: "downsample samples src_rate dst_rate = Some (Inr out)"
  then obtain ratio where "downsample_loop samples ratio 0 [] = Some (Inr out)"
    by (auto simp add: downsample_def split: sum.splits)
  from downsample_loop_members [OF this] have "set out \<subseteq> set samples" by simp
  then show "list_all in_int16 out" using assms by (auto simp add: list_all_iff)
next
  have "set (trim_silence samples threshold) \<subseteq> set samples"
    by (simp add: trim_silence_def Let_def set_drop_subset)
  then show "list_all in_int16 (trim_silence samples threshold)"
    using assms by (auto simp add: list_all_iff)
next
  fix out
  assume "truncate_duration samples max_dur = Inr out"
  then have "set out \<subseteq> set samples"
    by (auto simp add: truncate_duration_def py_slice_to_def split: sum.splits if_splits
             dest: in_set_takeD)
  then show "list_all in_int16 out" using assms by (auto simp add: list_all_iff)
next
  fix out
  assume "normalize samples target_peak = Inr out"
  then show "list_all in_int16 out"
    using assms by (auto simp add: normalize_def Let_def split: if_splits sum.splits
                         dest: scale_all_range)
next
  show "list_all in_int16 (align_brr samples)"
    using assms by (simp add: align_brr_def Let_def list_all_iff in_int16_def)
qed

theorem stages_keep_int16_range_witness:
  "(\<exists>out. to_mono [100, - 101, 7, 8] 2 = Inr out \<and> list_all in_int16 out)
   \<and> (\<exists>out. downsample [100, - 101, 7, 8] 16000 16000 = Some (Inr out) \<and> list_all in_int16 out)
   \<and> list_all in_int16 (trim_silence [100, - 101, 7, 8] 800)
   \<and> (\<exists>out. truncate_duration [100, - 101, 7, 8] (1 / 2) = Inr out \<and> list_all in_int16 out)
   \<and> (\<exists>out. normalize [100, - 101, 7, 8] 28000 = Inr out \<and> list_all in_int16 out)
   \<and> list_all in_int16 (align_brr [100, - 101, 7, 8])"
proof -
  let ?xs = "[100, - 101, 7, 8 :: int]"
  have rng: "list_all in_int16 ?xs" by (simp add: in_int16_def)
  have "length ?xs = 2 * 2" by simp
  then have a: "\<exists>out. to_mono ?xs 2 = Inr out" by (simp only: to_mono_eq [of 2 ?xs 2] pos2) simp
  have "to_double 1 = Inr 1" using to_double_of_int [of 1] by simp
  then have "int_truediv 16000 16000 = Inr 1" by (simp add: int_truediv_def)
  then have b: "\<exists>out. downsample ?xs 16000 16000 = Some (Inr out)"
    using downsample_loop_unit_ratio [of 0 ?xs "[]"] by (simp add: downsample_def)
  have "to_double (of_int 16000) = Inr (of_int 16000)" by (rule to_double_of_int) simp
  moreover have "to_double (of_int 8000) = Inr (of_int 8000)" by (rule to_double_of_int) simp
  ultimately have "int_mul_float TARGET_RATE (1 / 2) = Inr 8000"
    by (simp add: int_mul_float_def TARGET_RATE_def)
  then have c: "\<exists>out. truncate_duration ?xs (1 / 2) = Inr out"
    by (simp add: truncate_duration_def)
  have d: "\<exists>out. normalize ?xs 28000 = Inr out"
    using normalize_scaled [of ?xs 28000] rng by auto
  note inv = stages_keep_int16_range [OF rng, where nch = 2 and src_rate = 16000
      and dst_rate = 16000 and threshold = 800 and max_dur = "1 / 2" and target_peak = 28000]
  from inv a have "\<exists>out. to_mono ?xs 2 = Inr out \<and> list_all in_int16 out" by blast
  moreover from inv b
  have "\<exists>out. downsample ?xs 16000 16000 = Some (Inr out) \<and> list_all in_int16 out" by blast
  moreover from inv have "list_all in_int16 (trim_silence ?xs 800)" by blast
  moreover from inv c
  have "\<exists>out. truncate_duration ?xs (1 / 2) = Inr out \<and> list_all in_int16 out" by blast
  moreover from inv d
  have "\<exists>out. normalize ?xs 28000 = Inr out \<and> list_all in_int16 out" by blast
  moreover from inv have "list_all in_int16 (align_brr ?xs)" by blast
  ultimately show ?thesis by blast
qed

section \<open>Properties of the batch run\<close>

lemma main_loop_append:
  "main_loop world (xs @ ys) st =
     (case main_loop world xs st of
        None \<Rightarrow> None
      | Some (Raised e st1) \<Rightarrow> Some (Raised e st1)
      | Some (Finished st1) \<Rightarrow> main_loop world ys st1)"
  by (induction xs arbitrary: st) (auto split: option.splits outcome.splits)

lemma convert_entry_decoder_error:
  assumes "path_exists world (os_path_join SRC_DIR src_name)"
    and "read_wav_mono world (os_path_join SRC_DIR src_name) = Inl e"
  shows "convert_entry world (src_name, out_name, max_dur) st
           = Some (Raised e (print (Converting src_name out_name) st))"
  using assms by (simp add: convert_entry_def Let_def)

lemma main_loop_decoder_error:
  assumes "main_loop world before st = Some (Finished st1)"
    and "path_exists world (os_path_join SRC_DIR src_name)"
    and "read_wav_mono world (os_path_join SRC_DIR src_name) = Inl e"
  shows "main_loop world (before @ (src_name, out_name, max_dur) # remaining) st
           = Some (Raised e (print (Converting src_name out_name) st1))"
  using assms(1) convert_entry_decoder_error [OF assms(2,3)]
  by (simp add: main_loop_append)

text \<open>
  The two failures the loop does handle leave the batch running. When no source file exists,
  every entry prints its two lines and the summary \<open>Converted: 0/9\<close> follows.
\<close>

lemma main_missing_sources_continue:
  "\<exists>st. main \<lparr>path_exists = (\<lambda>p. False),
               wave_open = (\<lambda>p. Inl (WaveError ''file does not start with RIFF id'')),
               snesbrr = (\<lambda>wav brr written. (0, [])),
               getsize = (\<lambda>p. 0)\<rparr> = Some (Finished st)
        \<and> length (printed st) = 19 \<and> last (printed st) = Results 0 9 0"
  by (simp add: main_def MAPPINGS_def convert_entry_def print_def)

text \<open>
  Claim C1. The claim asks that a source the decoder rejects fails only its own entry and
  that the run goes on to the remaining entries. The program does not do that: the call of
  \<^verbatim>\<open>read_wav_mono\<close> in the loop of \<^verbatim>\<open>main\<close> is not guarded, unlike the missing source
  (\<^verbatim>\<open>continue\<close>) and the failed encoder run (\<^verbatim>\<open>FAILED\<close>, next entry) beside it. On the
  shipped table, with every source present and the first one not a RIFF file, the run ends
  with the decoder's exception after the first \<open>Converting\<close> line: the other eight entries
  are never visited and the \<open>Converted: n/9\<close> summary is never printed.
\<close>

theorem main_decoder_error_ends_batch:
  "main
     \<lparr>path_exists = (\<lambda>p. True),
      wave_open = (\<lambda>p. Inl (WaveError ''file does not start with RIFF id'')),
      snesbrr = (\<lambda>wav brr written. (0, [])),
      getsize = (\<lambda>p. 0)\<rparr>
   = Some (Raised (WaveError ''file does not start with RIFF id'')
       \<lparr>total_brr_size = 0, success = 0,
        printed = [Converting ''Zap.wav'' ''player_shoot'']\<rparr>)"
  by (simp add: main_def MAPPINGS_def convert_entry_def read_wav_mono_def print_def)

end
